theory Spec2Isabelle
  imports Main "HOL-Library.Word"
begin

section \<open>JavaScript strings and the encodings behind the entry identity\<close>

text \<open>
  A JavaScript string is a sequence of UTF-16 code units. The scraper derives the
  identity of an entry as \<^verbatim>\<open>Buffer.from(videoUrl).toString('base64')\<close>:
  \<^verbatim>\<open>Buffer.from\<close> encodes the string as UTF-8, where a surrogate pair becomes the
  four bytes of its code point and an unpaired surrogate becomes the three bytes of
  U+FFFD; \<^verbatim>\<open>toString('base64')\<close> is the standard padded base64 alphabet.
\<close>

type_synonym jsstring = "16 word list"

text \<open>An ASCII literal as a JavaScript string.\<close>

definition js :: "string \<Rightarrow> jsstring" where
  "js s = map (\<lambda>c. of_nat (of_char c)) s"

text \<open>The byte values (each below 256) of the UTF-8 encoding of a string.\<close>

fun utf8 :: "jsstring \<Rightarrow> nat list" where
  "utf8 [] = []"
| "utf8 (c # cs) =
    (let u = unat c in
     if u < 0x80 then u # utf8 cs
     else if u < 0x800 then (0xC0 + u div 64) # (0x80 + u mod 64) # utf8 cs
     else if 0xD800 \<le> u \<and> u < 0xDC00 then
       (case cs of
          [] \<Rightarrow> [0xEF, 0xBF, 0xBD]
        | d # ds \<Rightarrow>
            (let v = unat d in
             if 0xDC00 \<le> v \<and> v < 0xE000 then
               (let cp = 0x10000 + (u - 0xD800) * 0x400 + (v - 0xDC00) in
                (0xF0 + cp div 262144) # (0x80 + cp div 4096 mod 64) #
                (0x80 + cp div 64 mod 64) # (0x80 + cp mod 64) # utf8 ds)
             else 0xEF # 0xBF # 0xBD # utf8 cs))
     else if 0xDC00 \<le> u \<and> u < 0xE000 then 0xEF # 0xBF # 0xBD # utf8 cs
     else (0xE0 + u div 4096) # (0x80 + u div 64 mod 64) # (0x80 + u mod 64) # utf8 cs)"

definition Buffer_from :: "jsstring \<Rightarrow> 8 word list" where
  "Buffer_from s = map of_nat (utf8 s)"

definition b64chars :: string where
  "b64chars = ''ABCDEFGHIJKLMNOPQRSTUVWXYZabcdefghijklmnopqrstuvwxyz0123456789+/''"

definition b64 :: "nat \<Rightarrow> char" where
  "b64 n = b64chars ! n"

fun base64 :: "8 word list \<Rightarrow> string" where
  "base64 [] = []"
| "base64 [a] =
     (let x = unat a in [b64 (x div 4), b64 (x mod 4 * 16), CHR ''='', CHR ''=''])"
| "base64 [a, b] =
     (let x = unat a; y = unat b in
      [b64 (x div 4), b64 (x mod 4 * 16 + y div 16), b64 (y mod 16 * 4), CHR ''=''])"
| "base64 (a # b # c # r) =
     (let x = unat a; y = unat b; z = unat c in
      b64 (x div 4) # b64 (x mod 4 * 16 + y div 16) # b64 (y mod 16 * 4 + z div 64) #
      b64 (z mod 64) # base64 r)"

definition toString_base64 :: "8 word list \<Rightarrow> jsstring" where
  "toString_base64 buf = js (base64 buf)"

text \<open>Line 104 of addon.js: \<^verbatim>\<open>const entryId = Buffer.from(videoUrl).toString('base64')\<close>.\<close>

definition entryId :: "jsstring \<Rightarrow> jsstring" where
  "entryId videoUrl = toString_base64 (Buffer_from videoUrl)"

text \<open>
  \<^verbatim>\<open>String.prototype.isWellFormed\<close>: no unpaired surrogate. Every serialized URL is
  ASCII and therefore well formed.
\<close>

fun isWellFormed :: "jsstring \<Rightarrow> bool" where
  "isWellFormed [] = True"
| "isWellFormed (c # cs) =
    (let u = unat c in
     if 0xD800 \<le> u \<and> u < 0xDC00 then
       (case cs of
          [] \<Rightarrow> False
        | d # ds \<Rightarrow> 0xDC00 \<le> unat d \<and> unat d < 0xE000 \<and> isWellFormed ds)
     else if 0xDC00 \<le> u \<and> u < 0xE000 then False
     else isWellFormed cs)"

section \<open>The rendered page and the in-page extraction\<close>

text \<open>
  What \<^verbatim>\<open>page.evaluate\<close> reads from the rendered document: the origin of its
  location, its title, the \<^verbatim>\<open>content\<close> of the two meta elements when they exist, and
  the elements selected by \<^verbatim>\<open>a[href], iframe[src]\<close> in document order, each with the
  resolved URL its \<^verbatim>\<open>href\<close> or \<^verbatim>\<open>src\<close> property returns.
\<close>

datatype element = Anchor jsstring | IFrame jsstring

record document =
  location_origin :: jsstring
  document_title :: jsstring
  description_meta :: "jsstring option"
  og_image_meta :: "jsstring option"
  elements :: "element list"

record page_data =
  title :: jsstring
  description :: jsstring
  image :: jsstring
  videos :: "jsstring list"
  subLinks :: "jsstring list"

definition startsWith :: "jsstring \<Rightarrow> jsstring \<Rightarrow> bool" where
  "startsWith s p = (take (length p) s = p)"

definition endsWith :: "jsstring \<Rightarrow> jsstring \<Rightarrow> bool" where
  "endsWith s p = (length p \<le> length s \<and> drop (length s - length p) s = p)"

fun includes_str :: "jsstring \<Rightarrow> jsstring \<Rightarrow> bool" where
  "includes_str [] p = (p = [])"
| "includes_str (c # cs) p = (startsWith (c # cs) p \<or> includes_str cs p)"

text \<open>The case folding of the \<^verbatim>\<open>i\<close> flag, on the ASCII letters the pattern can match.\<close>

definition lowerASCII :: "16 word \<Rightarrow> 16 word" where
  "lowerASCII c = (if 0x41 \<le> unat c \<and> unat c \<le> 0x5A then c + 0x20 else c)"

text \<open>
  \<^verbatim>\<open>document.querySelector(selector)?.content || 'No Data'\<close>: the sentinel stands for
  a missing element and for an empty content alike.
\<close>

definition getContent :: "jsstring option \<Rightarrow> jsstring" where
  "getContent m =
     (case m of None \<Rightarrow> js ''No Data'' | Some c \<Rightarrow> if c = [] then js ''No Data'' else c)"

text \<open>
  \<^verbatim>\<open>el.href || el.src\<close>. An iframe has no \<^verbatim>\<open>href\<close>; an anchor has no \<^verbatim>\<open>src\<close>, so
  an anchor whose \<^verbatim>\<open>href\<close> is empty yields \<^verbatim>\<open>undefined\<close>, which the regular
  expressions read as the string \<^verbatim>\<open>undefined\<close>.
\<close>

fun linkOf :: "element \<Rightarrow> jsstring" where
  "linkOf (Anchor href) = (if href = [] then js ''undefined'' else href)"
| "linkOf (IFrame src) = src"

fun anchorHref :: "element \<Rightarrow> jsstring list" where
  "anchorHref (Anchor href) = [href]"
| "anchorHref (IFrame src) = []"

text \<open>
  \<^verbatim>\<open>/\.(mp4|m3u8|avi|mov)$/i.test(link) || /vidstream|dood|streamsb|streamtape/.test(link)\<close>
\<close>

definition isVideoLink :: "jsstring \<Rightarrow> bool" where
  "isVideoLink link =
     (list_ex (endsWith (map lowerASCII link))
        [js ''.mp4'', js ''.m3u8'', js ''.avi'', js ''.mov''] \<or>
      list_ex (includes_str link)
        [js ''vidstream'', js ''dood'', js ''streamsb'', js ''streamtape''])"

definition extraction :: "document \<Rightarrow> page_data" where
  "extraction d =
     \<lparr> title = (if document_title d = [] then js ''No Title'' else document_title d),
       description = getContent (description_meta d),
       image = getContent (og_image_meta d),
       videos = filter isVideoLink (map linkOf (elements d)),
       subLinks =
         filter (\<lambda>href. startsWith href (location_origin d))
           (concat (map anchorHref (elements d))) \<rparr>"

section \<open>The entry store\<close>

record entry =
  entry_catalogId :: jsstring
  entry_id :: jsstring
  entry_name :: jsstring
  entry_description :: jsstring
  entry_poster :: jsstring
  entry_videoUrl :: jsstring

text \<open>
  \<^verbatim>\<open>updateOne({ id, catalogId }, { $set: doc }, { upsert: true })\<close> on the collection
  in its natural order: the first document that matches the filter takes the fields
  of \<open>doc\<close> (the update sets all six); when none matches, \<open>doc\<close> is inserted.
\<close>

fun updateOne :: "jsstring \<Rightarrow> jsstring \<Rightarrow> entry \<Rightarrow> entry list \<Rightarrow> entry list" where
  "updateOne fid fcat doc [] = [doc]"
| "updateOne fid fcat doc (x # xs) =
     (if entry_id x = fid \<and> entry_catalogId x = fcat then doc # xs
      else x # updateOne fid fcat doc xs)"

text \<open>\<^verbatim>\<open>findOne({ id })\<close>: the first document with that id, whatever its catalog.\<close>

definition findOne :: "jsstring \<Rightarrow> entry list \<Rightarrow> entry option" where
  "findOne q coll = find (\<lambda>e. entry_id e = q) coll"

text \<open>The body of the loop over \<^verbatim>\<open>videos\<close> in \<^verbatim>\<open>scrapeSite\<close> builds this document.\<close>

definition entryOf :: "jsstring \<Rightarrow> page_data \<Rightarrow> jsstring \<Rightarrow> entry" where
  "entryOf catalogId data videoUrl =
     \<lparr> entry_catalogId = catalogId, entry_id = entryId videoUrl, entry_name = title data,
       entry_description = description data, entry_poster = image data,
       entry_videoUrl = videoUrl \<rparr>"

section \<open>The collaborators, the state and the crawl\<close>

text \<open>
  The collaborators are parameters of the model, and every call the program awaits on
  one of them can be rejected. The browser capability answers a navigation to a URL
  with a navigation error, with an error of the in-page evaluation, or with a rendered
  document; a URL outside the finite table \<open>web\<close> does not resolve. \<open>launch_rejects\<close> and
  \<open>browser_close_rejects\<close> hold the error of \<^verbatim>\<open>puppeteer.launch\<close> and of
  \<^verbatim>\<open>browser.close\<close>, if any. \<open>newPage_rejects\<close> and \<open>setUserAgent_rejects\<close> hold the
  error of \<^verbatim>\<open>browser.newPage\<close> and of \<^verbatim>\<open>page.setUserAgent\<close> during the fetch of a
  URL, and \<open>close_rejects env url k\<close> the error of the call of \<^verbatim>\<open>page.close\<close> that
  follows \<open>k\<close> earlier calls on the page of that fetch. The entry store may reject a
  write. \<open>url_hostname\<close> is \<^verbatim>\<open>new URL(u).hostname\<close>, \<open>None\<close> where the constructor
  throws; \<open>random_pick\<close> is the draw of \<^verbatim>\<open>Math.random\<close> behind the choice of the user
  agent. One environment describes the collaborators for the length of a refresh cycle.
\<close>

datatype rendering = NavigationError jsstring | EvaluationError jsstring | Rendered document

datatype exn = StoreError jsstring | TypeError jsstring | BrowserError jsstring

record site =
  site_url :: jsstring
  site_id :: jsstring

record env =
  web :: "(jsstring \<times> rendering) list"
  random_pick :: "jsstring \<Rightarrow> nat"
  launch_rejects :: "jsstring option"
  browser_close_rejects :: "jsstring option"
  newPage_rejects :: "jsstring \<Rightarrow> jsstring option"
  setUserAgent_rejects :: "jsstring \<Rightarrow> jsstring option"
  close_rejects :: "jsstring \<Rightarrow> nat \<Rightarrow> jsstring option"
  store_rejects :: "entry \<Rightarrow> jsstring option"
  url_hostname :: "jsstring \<Rightarrow> jsstring option"

text \<open>
  The effects on the collaborators are recorded as a trace of events; a rendering
  context is named by the number of contexts opened before it. A call that is rejected
  leaves no event, except a rejected \<^verbatim>\<open>page.close\<close>, which leaves \<open>PageCloseRejected\<close>.
\<close>

datatype event =
    BrowserLaunch
  | BrowserClose
  | NewPage nat
  | SetUserAgent nat jsstring
  | Goto nat jsstring
  | Evaluate nat
  | PageClose nat
  | PageCloseRejected nat
  | ConsoleError jsstring jsstring

record state =
  sitesToScrape :: "site list"
  db :: "entry list"
  pagesOpened :: nat
  trace :: "event list"

definition emit :: "event list \<Rightarrow> state \<Rightarrow> state" where
  "emit evs st = st\<lparr>trace := trace st @ evs\<rparr>"

definition userAgents :: "jsstring list" where
  "userAgents =
     [js ''Mozilla/5.0 (Windows NT 10.0; Win64; x64)...'',
      js ''Mozilla/5.0 (Macintosh; Intel Mac OS X 10_15_7)...'',
      js ''Mozilla/5.0 (X11; Linux x86_64)...'',
      js ''Mozilla/5.0 (iPhone; CPU iPhone OS 14_0 like Mac OS X)...'']"

definition render :: "env \<Rightarrow> jsstring \<Rightarrow> rendering" where
  "render env url =
     (case map_of (web env) url of
        None \<Rightarrow> NavigationError (js ''net::ERR_NAME_NOT_RESOLVED'')
      | Some r \<Rightarrow> r)"

text \<open>
  \<^verbatim>\<open>await page.close()\<close>, as the call that follows \<open>k\<close> earlier ones on the page:
  the message of the rejection, if the call is rejected.
\<close>

definition closePage :: "env \<Rightarrow> nat \<Rightarrow> jsstring \<Rightarrow> nat \<Rightarrow> state \<Rightarrow> jsstring option \<times> state" where
  "closePage env page url k st =
     (case close_rejects env url k of
        Some err \<Rightarrow> (Some err, emit [PageCloseRejected page] st)
      | None \<Rightarrow> (None, emit [PageClose page] st))"

text \<open>
  The body of the \<^verbatim>\<open>try\<close> block of \<^verbatim>\<open>fetchPageData\<close>: \<^verbatim>\<open>goto\<close>, \<^verbatim>\<open>evaluate\<close>,
  \<^verbatim>\<open>close\<close>, \<^verbatim>\<open>return data\<close>. \<open>Inl (err, k)\<close> is the error thrown to the \<^verbatim>\<open>catch\<close>,
  with the number of calls of \<^verbatim>\<open>page.close\<close> made before it was thrown.
\<close>

definition tryBlock ::
  "env \<Rightarrow> nat \<Rightarrow> jsstring \<Rightarrow> state \<Rightarrow> (jsstring \<times> nat + page_data) \<times> state" where
  "tryBlock env page url st =
     (case render env url of
        NavigationError err \<Rightarrow> (Inl (err, 0), emit [Goto page url] st)
      | EvaluationError err \<Rightarrow> (Inl (err, 0), emit [Goto page url, Evaluate page] st)
      | Rendered d \<Rightarrow>
          (case closePage env page url 0 (emit [Goto page url, Evaluate page] st) of
             (Some err, st1) \<Rightarrow> (Inl (err, 1), st1)
           | (None, st1) \<Rightarrow> (Inr (extraction d), st1)))"

text \<open>
  The \<^verbatim>\<open>catch\<close> block: it logs the URL with the message, closes the page and
  returns \<^verbatim>\<open>null\<close> (\<open>Inr None\<close>). Its \<^verbatim>\<open>page.close\<close> is not guarded: a rejection
  leaves \<^verbatim>\<open>fetchPageData\<close> as an exception (\<open>Inl\<close>).
\<close>

definition catchBlock ::
  "env \<Rightarrow> nat \<Rightarrow> jsstring \<Rightarrow> jsstring \<times> nat \<Rightarrow> state \<Rightarrow> (exn + page_data option) \<times> state" where
  "catchBlock env page url thrown st =
     (case closePage env page url (snd thrown) (emit [ConsoleError url (fst thrown)] st) of
        (Some err, st1) \<Rightarrow> (Inl (BrowserError err), st1)
      | (None, st1) \<Rightarrow> (Inr None, st1))"

text \<open>
  \<^verbatim>\<open>fetchPageData\<close>: a new page and a user agent, both before the \<^verbatim>\<open>try\<close>, so that a
  rejection of either leaves the function as an exception; then the \<^verbatim>\<open>try\<close> block and
  the \<^verbatim>\<open>catch\<close> block.
\<close>

definition fetchPageData :: "env \<Rightarrow> jsstring \<Rightarrow> state \<Rightarrow> (exn + page_data option) \<times> state" where
  "fetchPageData env url st =
     (case newPage_rejects env url of
        Some err \<Rightarrow> (Inl (BrowserError err), st)
      | None \<Rightarrow>
          (let page = pagesOpened st;
               st1 = emit [NewPage page] (st\<lparr>pagesOpened := page + 1\<rparr>)
           in case setUserAgent_rejects env url of
                Some err \<Rightarrow> (Inl (BrowserError err), st1)
              | None \<Rightarrow>
                  (let ua = userAgents ! (random_pick env url mod length userAgents);
                       st2 = emit [SetUserAgent page ua] st1
                   in case tryBlock env page url st2 of
                        (Inr data, st3) \<Rightarrow> (Inr (Some data), st3)
                      | (Inl thrown, st3) \<Rightarrow> catchBlock env page url thrown st3)))"

text \<open>
  The loop over \<^verbatim>\<open>videos\<close>: a rejected write is an exception that nothing in
  \<^verbatim>\<open>scrapeSite\<close> catches.
\<close>

fun storeVideos :: "env \<Rightarrow> jsstring \<Rightarrow> page_data \<Rightarrow> jsstring list \<Rightarrow> state \<Rightarrow> exn option \<times> state" where
  "storeVideos env catalogId data [] st = (None, st)"
| "storeVideos env catalogId data (videoUrl # rest) st =
     (let doc = entryOf catalogId data videoUrl in
      case store_rejects env doc of
        Some err \<Rightarrow> (Some (StoreError err), st)
      | None \<Rightarrow>
          storeVideos env catalogId data rest
            (st\<lparr>db := updateOne (entryId videoUrl) catalogId doc (db st)\<rparr>))"

text \<open>
  \<^verbatim>\<open>scrapeSite\<close> and its loop over \<^verbatim>\<open>subLinks\<close>. The visited set is one object
  shared by the whole walk, so it is threaded through the calls with the state. The
  first component of a result is the exception that ended the walk, if any: nothing in
  \<^verbatim>\<open>scrapeSite\<close> catches an exception of the page fetch or of the store.
\<close>

type_synonym walk = "jsstring set \<times> state"

function scrapeSite :: "env \<Rightarrow> site \<Rightarrow> walk \<Rightarrow> exn option \<times> walk"
  and scrapeLinks :: "env \<Rightarrow> jsstring \<Rightarrow> jsstring list \<Rightarrow> walk \<Rightarrow> exn option \<times> walk" where
  "scrapeSite env s (visited, st) =
     (if site_url s \<in> visited then (None, (visited, st))
      else
        (case fetchPageData env (site_url s) st of
           (Inl e, st1) \<Rightarrow> (Some e, (insert (site_url s) visited, st1))
         | (Inr None, st1) \<Rightarrow> (None, (insert (site_url s) visited, st1))
         | (Inr (Some data), st1) \<Rightarrow>
             (case storeVideos env (site_id s) data (videos data) st1 of
                (Some e, st2) \<Rightarrow> (Some e, (insert (site_url s) visited, st2))
              | (None, st2) \<Rightarrow>
                  scrapeLinks env (site_id s) (subLinks data)
                    (insert (site_url s) visited, st2))))"
| "scrapeLinks env catalogId [] w = (None, w)"
| "scrapeLinks env catalogId (subLink # rest) w =
     (case scrapeSite env \<lparr>site_url = subLink, site_id = catalogId\<rparr> w of
        (Some e, w1) \<Rightarrow> (Some e, w1)
      | (None, w1) \<Rightarrow> scrapeLinks env catalogId rest w1)"
  by pat_completeness auto

subsection \<open>Termination of the walk\<close>

text \<open>
  A page is fetched only for a URL that is not yet visited, and a recursive call is
  made only below a URL of the table: the number of unvisited URLs of the table
  decreases.
\<close>

lemma fetchPageData_Some_web:
  assumes "fetchPageData env url st = (Inr (Some data), st1)"
  shows "url \<in> fst ` set (web env)"
proof -
  from assms obtain d where "render env url = Rendered d"
    by (cases "render env url")
      (auto simp add: fetchPageData_def tryBlock_def catchBlock_def closePage_def Let_def
        split: option.splits)
  then have "map_of (web env) url = Some (Rendered d)"
    by (simp add: render_def split: option.splits)
  then show ?thesis by (metis map_of_SomeD fst_conv image_eqI)
qed

lemma visited_grows_partial:
  "scrapeSite_scrapeLinks_dom (Inl (env, s, w)) \<Longrightarrow> fst w \<subseteq> fst (snd (scrapeSite env s w))"
  "scrapeSite_scrapeLinks_dom (Inr (env, c, links, w)) \<Longrightarrow>
     fst w \<subseteq> fst (snd (scrapeLinks env c links w))"
proof (induction env s w and env c links w rule: scrapeSite_scrapeLinks.pinduct)
  case (1 env s visited st)
  show ?case
  proof (cases "site_url s \<in> visited")
    case True
    with 1(1) show ?thesis by (simp add: scrapeSite.psimps)
  next
    case False
    obtain r st1 where f: "fetchPageData env (site_url s) st = (r, st1)"
      by (cases "fetchPageData env (site_url s) st")
    show ?thesis
    proof (cases r)
      case (Inl e)
      with 1(1) False f show ?thesis by (auto simp add: scrapeSite.psimps)
    next
      case (Inr res)
      show ?thesis
      proof (cases res)
        case None
        with 1(1) False f Inr show ?thesis by (auto simp add: scrapeSite.psimps)
      next
        case (Some data)
        obtain x st2 where v: "storeVideos env (site_id s) data (videos data) st1 = (x, st2)"
          by (cases "storeVideos env (site_id s) data (videos data) st1")
        show ?thesis
        proof (cases x)
          case None
          from 1(2) [OF False f [symmetric] Inr Some v [symmetric] None]
          show ?thesis using 1(1) False f Inr Some v None by (auto simp add: scrapeSite.psimps)
        next
          case (Some e)
          with 1(1) False f Inr \<open>res = Some data\<close> v show ?thesis
            by (auto simp add: scrapeSite.psimps)
        qed
      qed
    qed
  qed
next
  case (2 env catalogId w)
  then show ?case by (simp add: scrapeLinks.psimps)
next
  case (3 env catalogId subLink rest w)
  obtain x w1 where r: "scrapeSite env \<lparr>site_url = subLink, site_id = catalogId\<rparr> w = (x, w1)"
    by (cases "scrapeSite env \<lparr>site_url = subLink, site_id = catalogId\<rparr> w")
  show ?case
  proof (cases x)
    case None
    from 3(2) 3(3) [OF r [symmetric] None] r None 3(1)
    show ?thesis by (auto simp add: scrapeLinks.psimps)
  next
    case (Some e)
    with 3(2) r 3(1) show ?thesis by (auto simp add: scrapeLinks.psimps)
  qed
qed

lemma card_unvisited_less:
  assumes "u \<in> fst ` set (W :: (jsstring \<times> rendering) list)" "u \<notin> V"
  shows "card (fst ` set W - insert u V) < card (fst ` set W - V)"
proof -
  have "fst ` set W - insert u V = (fst ` set W - V) - {u}" by auto
  moreover have "u \<in> fst ` set W - V" using assms by simp
  moreover have "finite (fst ` set W - V)" by simp
  ultimately show ?thesis by (metis card_Diff1_less)
qed

lemma card_unvisited_mono:
  assumes "V \<subseteq> V'"
  shows "card (fst ` set (W :: (jsstring \<times> rendering) list) - V') \<le> card (fst ` set W - V)"
  by (rule card_mono) (use assms in auto)

lemma scrapeSite_total: "All scrapeSite_scrapeLinks_dom"
proof (relation "inv_image (less_than <*lex*> less_than)
     (\<lambda>x. case x of
        Inl (env, s, visited, st) \<Rightarrow> (card (fst ` set (web env) - visited), 0)
      | Inr (env, c, links, visited, st) \<Rightarrow>
          (card (fst ` set (web env) - visited), Suc (length links)))", goal_cases)
  case 1
  show ?case by (intro wf_inv_image wf_lex_prod wf_less_than)
next
  case (2 env s visited st x y x2 x2a xa ya)
  then have "fetchPageData env (site_url s) st = (Inr (Some x2a), y)" by simp
  from card_unvisited_less [OF fetchPageData_Some_web [OF this] 2(1)]
  show ?case by simp
next
  case (3 env catalogId subLink rest w)
  show ?case by (cases w) simp
next
  case (4 env catalogId subLink rest w x y)
  from visited_grows_partial(1) [OF 4(3)] 4(1)
  have "fst w \<subseteq> fst y" by (metis snd_conv)
  from card_unvisited_mono [OF this, of "web env"]
  show ?case by (cases w; cases y) auto
qed

termination scrapeSite
  by (rule scrapeSite_total)

text \<open>The loop of \<^verbatim>\<open>refreshScraping\<close>: each site is walked with a new visited set.\<close>

fun scrapeAll :: "env \<Rightarrow> site list \<Rightarrow> state \<Rightarrow> exn option \<times> state" where
  "scrapeAll env [] st = (None, st)"
| "scrapeAll env (s # rest) st =
     (case scrapeSite env s ({}, st) of
        (Some e, w) \<Rightarrow> (Some e, snd w)
      | (None, w) \<Rightarrow> scrapeAll env rest (snd w))"

text \<open>
  \<^verbatim>\<open>refreshScraping\<close>: launch, the loop, \<^verbatim>\<open>browser.close\<close>. There is no \<^verbatim>\<open>try\<close>
  in it: an exception of a walk ends the cycle before the browser is closed.
\<close>

definition refreshScraping :: "env \<Rightarrow> state \<Rightarrow> exn option \<times> state" where
  "refreshScraping env st =
     (case launch_rejects env of
        Some err \<Rightarrow> (Some (BrowserError err), st)
      | None \<Rightarrow>
          (case scrapeAll env (sitesToScrape st) (emit [BrowserLaunch] st) of
             (Some e, st1) \<Rightarrow> (Some e, st1)
           | (None, st1) \<Rightarrow>
               (case browser_close_rejects env of
                  Some err \<Rightarrow> (Some (BrowserError err), st1)
                | None \<Rightarrow> (None, emit [BrowserClose] st1))))"

section \<open>The query handlers and the registration\<close>

text \<open>\<^verbatim>\<open>defineStreamHandler\<close>: the list of the stream URLs of the answer.\<close>

definition streamHandler :: "entry list \<Rightarrow> jsstring \<Rightarrow> jsstring list" where
  "streamHandler coll q =
     (case findOne q coll of Some e \<Rightarrow> [entry_videoUrl e] | None \<Rightarrow> [])"

record meta =
  meta_id :: jsstring
  meta_type :: jsstring
  meta_name :: jsstring
  meta_poster :: jsstring
  meta_description :: jsstring

text \<open>\<^verbatim>\<open>defineMetaHandler\<close>: \<open>None\<close> is the empty object of the answer.\<close>

definition metaHandler :: "entry list \<Rightarrow> jsstring \<Rightarrow> meta option" where
  "metaHandler coll q =
     (case findOne q coll of
        Some e \<Rightarrow>
          Some \<lparr> meta_id = entry_id e, meta_type = js ''movie'', meta_name = entry_name e,
                 meta_poster = entry_poster e, meta_description = entry_description e \<rparr>
      | None \<Rightarrow> None)"

datatype response = BadRequest jsstring | Success jsstring

text \<open>
  \<^verbatim>\<open>hostname.replace(/\./g, '-')\<close>: the string is scanned from the left and every
  match of the pattern, a single dot, is replaced by a dash.
\<close>

fun replace_dots :: "jsstring \<Rightarrow> jsstring" where
  "replace_dots [] = []"
| "replace_dots (c # cs) = (if [c] = js ''.'' then js ''-'' @ replace_dots cs else c # replace_dots cs)"

text \<open>The template literal \<^verbatim>\<open>`catalog-${domain}`\<close>.\<close>

definition catalogIdOf :: "jsstring \<Rightarrow> jsstring" where
  "catalogIdOf host = js ''catalog-'' @ replace_dots host"

text \<open>
  The handler of \<^verbatim>\<open>POST /add-site\<close>. The body carries a URL or none; the empty
  string is as falsy as a missing one. \<open>Inl\<close> is an exception that leaves the handler
  with no response sent.
\<close>

definition addSite :: "env \<Rightarrow> jsstring option \<Rightarrow> state \<Rightarrow> (exn + response) \<times> state" where
  "addSite env body_url st =
     (case body_url of
        None \<Rightarrow> (Inr (BadRequest (js ''Missing URL'')), st)
      | Some url \<Rightarrow>
          if url = [] then (Inr (BadRequest (js ''Missing URL'')), st)
          else
            (case url_hostname env url of
               None \<Rightarrow> (Inl (TypeError (js ''Invalid URL'')), st)
             | Some host \<Rightarrow>
                 (let catalogId = catalogIdOf host;
                      st1 = st\<lparr>sitesToScrape :=
                              sitesToScrape st @ [\<lparr>site_url = url, site_id = catalogId\<rparr>]\<rparr>
                  in case refreshScraping env st1 of
                       (Some e, st2) \<Rightarrow> (Inl e, st2)
                     | (None, st2) \<Rightarrow> (Inr (Success catalogId), st2))))"

section \<open>Notions for the statements\<close>

text \<open>
  Nothing in this section is code of the program: these are the observations on traces
  and stores in which the properties are stated, the invariant of a walk, and two
  functions of the specification side (a UTF-8 decoder and the origin of a URL).
\<close>

text \<open>
  A UTF-8 decoder. It is no part of the program: it is the inverse used to show that
  the encoder loses nothing on well-formed strings.
\<close>

fun utf8_decode :: "nat list \<Rightarrow> jsstring" where
  "utf8_decode [] = []"
| "utf8_decode (b # bs) =
    (if b < 0x80 then of_nat b # utf8_decode bs
     else if b < 0xE0 then
       (case bs of
          b1 # r \<Rightarrow> of_nat ((b - 0xC0) * 64 + (b1 - 0x80)) # utf8_decode r
        | _ \<Rightarrow> [])
     else if b < 0xF0 then
       (case bs of
          b1 # b2 # r \<Rightarrow>
            of_nat ((b - 0xE0) * 4096 + (b1 - 0x80) * 64 + (b2 - 0x80)) # utf8_decode r
        | _ \<Rightarrow> [])
     else
       (case bs of
          b1 # b2 # b3 # r \<Rightarrow>
            (let cp = (b - 0xF0) * 262144 + (b1 - 0x80) * 4096 + (b2 - 0x80) * 64 + (b3 - 0x80)
             in of_nat (0xD800 + (cp - 0x10000) div 0x400) #
                of_nat (0xDC00 + (cp - 0x10000) mod 0x400) # utf8_decode r)
        | _ \<Rightarrow> []))"

text \<open>
  The origin of a serialized URL as the glossary defines it: scheme, host and port,
  without the user information. This is what \<^verbatim>\<open>location.origin\<close> holds for the page
  itself; the program never computes it for a link.
\<close>

definition url_origin :: "jsstring \<Rightarrow> jsstring" where
  "url_origin href =
     (let scheme = takeWhile (\<lambda>c. c \<noteq> 0x3A) href;
          authority = takeWhile (\<lambda>c. c \<noteq> 0x2F \<and> c \<noteq> 0x3F \<and> c \<noteq> 0x23)
                        (drop (length scheme + 3) href);
          hostport = rev (takeWhile (\<lambda>c. c \<noteq> 0x40) (rev authority))
      in scheme @ js ''://'' @ hostport)"

text \<open>The URLs navigated to in a trace, in order, and the events a run added.\<close>

fun gotoUrl :: "event \<Rightarrow> jsstring list" where
  "gotoUrl (Goto page url) = [url]"
| "gotoUrl _ = []"

definition fetched :: "event list \<Rightarrow> jsstring list" where
  "fetched tr = concat (map gotoUrl tr)"

definition since :: "state \<Rightarrow> state \<Rightarrow> event list" where
  "since st st' = drop (length (trace st)) (trace st')"

text \<open>The compound key of an entry, and the display metadata of an entry.\<close>

definition entry_key :: "entry \<Rightarrow> jsstring \<times> jsstring" where
  "entry_key e = (entry_id e, entry_catalogId e)"

definition metaOf :: "entry \<Rightarrow> meta" where
  "metaOf e =
     \<lparr> meta_id = entry_id e, meta_type = js ''movie'', meta_name = entry_name e,
       meta_poster = entry_poster e, meta_description = entry_description e \<rparr>"

text \<open>The events of a walk are those of its pages: a walk neither launches nor closes the browser.\<close>

fun page_event :: "event \<Rightarrow> bool" where
  "page_event BrowserLaunch = False"
| "page_event BrowserClose = False"
| "page_event _ = True"

text \<open>What a walk decides: the exception that ends it, the visited set and the store.\<close>

definition outcome :: "exn option \<times> walk \<Rightarrow> exn option \<times> jsstring set \<times> entry list" where
  "outcome r = (fst r, fst (snd r), db (snd (snd r)))"

fun newPageOf :: "event \<Rightarrow> nat list" where
  "newPageOf (NewPage page) = [page]"
| "newPageOf _ = []"

fun pageCloseOf :: "event \<Rightarrow> nat list" where
  "pageCloseOf (PageClose page) = [page]"
| "pageCloseOf _ = []"

text \<open>The rendering contexts a trace opens and the ones it releases, each in order.\<close>

definition opened :: "event list \<Rightarrow> nat list" where
  "opened tr = concat (map newPageOf tr)"

definition closed :: "event list \<Rightarrow> nat list" where
  "closed tr = concat (map pageCloseOf tr)"

text \<open>
  What every walk keeps: it only adds page events to the trace, it navigates to no URL
  twice and to none that was visited before, every URL navigated to is marked visited,
  and the site list is left alone. A walk that ends without an exception has marked
  exactly the URLs it navigated to, and has released every rendering context it
  opened, each before the next one was opened.
\<close>

definition walk_ok :: "walk \<Rightarrow> exn option \<times> walk \<Rightarrow> bool" where
  "walk_ok w r =
     (\<exists>ev. trace (snd (snd r)) = trace (snd w) @ ev \<and> list_all page_event ev \<and>
        distinct (fetched ev) \<and> set (fetched ev) \<inter> fst w = {} \<and>
        fst w \<union> set (fetched ev) \<subseteq> fst (snd r) \<and>
        (fst r = None \<longrightarrow>
           fst (snd r) = fst w \<union> set (fetched ev) \<and> closed ev = opened ev) \<and>
        sitesToScrape (snd (snd r)) = sitesToScrape (snd w))"

text \<open>
  The calls on the page of the fetch of a URL (\<^verbatim>\<open>newPage\<close>, \<^verbatim>\<open>setUserAgent\<close>, every
  \<^verbatim>\<open>close\<close>) succeed; and no call on any collaborator but the navigation and the
  in-page evaluation is rejected.
\<close>

definition page_calls_succeed :: "env \<Rightarrow> jsstring \<Rightarrow> bool" where
  "page_calls_succeed env url =
     (newPage_rejects env url = None \<and> setUserAgent_rejects env url = None \<and>
      (\<forall>k. close_rejects env url k = None))"

definition only_pages_fail :: "env \<Rightarrow> bool" where
  "only_pages_fail env =
     (launch_rejects env = None \<and> browser_close_rejects env = None \<and>
      (\<forall>url. page_calls_succeed env url) \<and> (\<forall>e. store_rejects env e = None))"


section \<open>Example environments\<close>

text \<open>The state of a process that has just started.\<close>

definition st0 :: state where
  "st0 = \<lparr> sitesToScrape = [], db = [], pagesOpened = 0, trace = [] \<rparr>"

text \<open>A document with an origin, a title and anchors, and no meta element.\<close>

definition page_with :: "jsstring \<Rightarrow> jsstring \<Rightarrow> jsstring list \<Rightarrow> document" where
  "page_with origin t links =
     \<lparr> location_origin = origin, document_title = t, description_meta = None,
       og_image_meta = None, elements = map Anchor links \<rparr>"

text \<open>
  An environment with the given pages, in which no other call is rejected, and with no
  URL parser.
\<close>

definition env_of :: "(jsstring \<times> rendering) list \<Rightarrow> env" where
  "env_of w =
     \<lparr> web = w, random_pick = (\<lambda>u. 0), launch_rejects = None, browser_close_rejects = None,
       newPage_rejects = (\<lambda>u. None), setUserAgent_rejects = (\<lambda>u. None),
       close_rejects = (\<lambda>u k. None), store_rejects = (\<lambda>e. None),
       url_hostname = (\<lambda>u. None) \<rparr>"

text \<open>Two pages that link to each other.\<close>

definition cyclic_env :: env where
  "cyclic_env =
     env_of
       [(js ''http://a.io/'',
         Rendered (page_with (js ''http://a.io'') (js ''A'') [js ''http://a.io/b''])),
        (js ''http://a.io/b'',
         Rendered (page_with (js ''http://a.io'') (js ''B'') [js ''http://a.io/'']))]"

text \<open>Two URLs that fail for different reasons: a navigation timeout and a script error.\<close>

definition failing_env :: env where
  "failing_env =
     env_of [(js ''http://x.io/'', NavigationError (js ''timeout'')),
             (js ''http://y.io/'', EvaluationError (js ''script error''))]"

text \<open>
  A page of \<open>https://example.com\<close> with one anchor to a host that has the page's host
  as a prefix of its name.
\<close>

definition lookalike_env :: env where
  "lookalike_env =
     env_of
       [(js ''https://example.com/'',
         Rendered (page_with (js ''https://example.com'') (js ''Home'')
                     [js ''https://example.com.evil.org/x'']))]"

text \<open>
  The same failing pages, with a browser whose page is gone by the time it is used:
  in the first environment \<^verbatim>\<open>setUserAgent\<close> is rejected, in the second one every
  \<^verbatim>\<open>page.close\<close>. In the third one a page renders and only the first \<^verbatim>\<open>page.close\<close>
  of a fetch is rejected.
\<close>

definition agent_rejected_env :: env where
  "agent_rejected_env =
     (env_of [(js ''http://x.io/'', NavigationError (js ''timeout''))])
       \<lparr>setUserAgent_rejects := (\<lambda>u. Some (js ''Target closed''))\<rparr>"

definition close_rejected_env :: env where
  "close_rejected_env =
     (env_of [(js ''http://x.io/'', NavigationError (js ''timeout''))])
       \<lparr>close_rejects := (\<lambda>u k. Some (js ''Target closed''))\<rparr>"

definition first_close_rejected_env :: env where
  "first_close_rejected_env =
     (env_of [(js ''http://a.io/'', Rendered (page_with (js ''http://a.io'') (js ''A'') []))])
       \<lparr>close_rejects := (\<lambda>u k. if k = 0 then Some (js ''Target closed'') else None)\<rparr>"

text \<open>
  A URL parser that knows two URLs and rejects everything else, and a state with one
  site registered before.
\<close>

definition registry_env :: env where
  "registry_env =
     (env_of [])
       \<lparr>url_hostname :=
          map_of [(js ''https://example.com'', js ''example.com''),
                  (js ''https://www.films.example.org/list'', js ''www.films.example.org'')]\<rparr>"

definition one_site :: state where
  "one_site =
     st0\<lparr>sitesToScrape := [\<lparr>site_url = js ''http://a.io/'', site_id = js ''catalog-a-io''\<rparr>]\<rparr>"






text \<open>The data of two crawls of one page, and a store with one media URL in two catalogs.\<close>

definition page_A :: page_data where
  "page_A = \<lparr> title = js ''A'', description = js ''No Data'', image = js ''No Data'',
               videos = [js ''http://a.io/v.mp4''], subLinks = [] \<rparr>"

definition page_B :: page_data where
  "page_B = \<lparr> title = js ''B'', description = js ''new'', image = js ''http://a.io/p.png'',
               videos = [js ''http://a.io/v.mp4''], subLinks = [] \<rparr>"

definition two_catalogs :: "entry list" where
  "two_catalogs =
     [entryOf (js ''catalog-a-io'') page_A (js ''http://a.io/v.mp4''),
      entryOf (js ''catalog-b-io'') page_B (js ''http://a.io/v.mp4'')]"

section \<open>The entry identity is injective on well-formed strings\<close>

lemma unat8: "unat (a :: 8 word) < 256"
  using unsigned_less [of a, where 'a = nat] by simp

lemma unat16: "unat (c :: 16 word) < 65536"
  using unsigned_less [of c, where 'a = nat] by simp

lemma quot_rem_unique:
  fixes a b n :: nat
  assumes "b < n" "b' < n" "a * n + b = a' * n + b'"
  shows "a = a' \<and> b = b'"
proof -
  have "(a * n + b) div n = (a' * n + b') div n" by (simp only: assms(3))
  then have "a = a'" using assms(1,2) by simp
  with assms(3) show ?thesis by simp
qed

lemma div_mod_join:
  fixes x y n :: nat
  shows "x div n = y div n \<Longrightarrow> x mod n = y mod n \<Longrightarrow> x = y"
  by (metis div_mult_mod_eq)

subsection \<open>base64\<close>

lemma b64chars_length: "length b64chars = 64"
  by (simp add: b64chars_def)

lemma b64chars_distinct: "distinct b64chars"
  by (simp add: b64chars_def)

lemma b64chars_no_pad: "CHR ''='' \<notin> set b64chars"
  by (simp add: b64chars_def)

lemma b64_inj: "m < 64 \<Longrightarrow> n < 64 \<Longrightarrow> b64 m = b64 n \<longleftrightarrow> m = n"
  by (simp add: b64_def nth_eq_iff_index_eq b64chars_distinct b64chars_length)

lemma b64_not_pad: "n < 64 \<Longrightarrow> b64 n \<noteq> CHR ''=''"
proof -
  assume "n < 64"
  then have "b64chars ! n \<in> set b64chars" by (simp add: b64chars_length)
  with b64chars_no_pad show ?thesis unfolding b64_def by metis
qed

lemma sextet_bounds:
  fixes x y :: nat
  assumes "x < 256" "y < 256"
  shows "x div 4 < 64" "x mod 4 * 16 < 64" "x mod 4 * 16 + y div 16 < 64"
    "x mod 16 * 4 < 64" "x mod 16 * 4 + y div 64 < 64" "x mod 64 < 64"
proof -
  have a: "x mod 4 < 4" "x mod 16 < 16" by simp_all
  have b: "y div 16 < 16" "y div 64 < 4" using assms by simp_all
  show "x div 4 < 64" using assms by simp
  show "x mod 4 * 16 < 64" using a by linarith
  show "x mod 4 * 16 + y div 16 < 64" using a b by linarith
  show "x mod 16 * 4 < 64" using a by linarith
  show "x mod 16 * 4 + y div 64 < 64" using a b by linarith
  show "x mod 64 < 64" by simp
qed

lemmas sextets = sextet_bounds [OF unat8 unat8]

lemmas b64_pad = sextets [THEN b64_not_pad] sextets [THEN b64_not_pad, THEN not_sym]

lemma base64_inj: "base64 xs = base64 ys \<Longrightarrow> xs = ys"
proof (induction xs arbitrary: ys rule: base64.induct)
  case 1
  then show ?case by (cases ys rule: base64.cases) (simp_all add: Let_def)
next
  case (2 a)
  show ?case
  proof (cases ys rule: base64.cases)
    case 1
    with 2 show ?thesis by (simp add: Let_def)
  next
    case (2 a')
    with "2.prems" have e: "unat a div 4 = unat a' div 4" "unat a mod 4 * 16 = unat a' mod 4 * 16"
      by (simp_all add: Let_def b64_inj sextets)
    have "unat a = unat a'" by (rule div_mod_join [where n = 4]) (use e in simp_all)
    with 2 show ?thesis by (simp add: word_unat_eq_iff)
  next
    case (3 a' b')
    with "2.prems" show ?thesis by (simp add: Let_def b64_pad)
  next
    case (4 a' b' c' r)
    with "2.prems" show ?thesis by (simp add: Let_def b64_pad)
  qed
next
  case (3 a b)
  show ?case
  proof (cases ys rule: base64.cases)
    case 1
    with 3 show ?thesis by (simp add: Let_def)
  next
    case (2 a')
    with "3.prems" show ?thesis by (simp add: Let_def b64_pad)
  next
    case (3 a' b')
    with "3.prems" have e: "unat a div 4 = unat a' div 4"
       "unat a mod 4 * 16 + unat b div 16 = unat a' mod 4 * 16 + unat b' div 16"
       "unat b mod 16 * 4 = unat b' mod 16 * 4"
      by (simp_all add: Let_def b64_inj sextets)
    have "unat b div 16 < 16" "unat b' div 16 < 16" using unat8 [of b] unat8 [of b'] by simp_all
    note q = quot_rem_unique [OF this e(2)]
    have "unat a = unat a'" by (rule div_mod_join [where n = 4]) (use q e in simp_all)
    moreover have "unat b = unat b'" by (rule div_mod_join [where n = 16]) (use q e in simp_all)
    ultimately show ?thesis using 3 by (simp add: word_unat_eq_iff)
  next
    case (4 a' b' c' r)
    with "3.prems" show ?thesis by (simp add: Let_def b64_pad)
  qed
next
  case (4 a b c r)
  show ?case
  proof (cases ys rule: base64.cases)
    case 1
    with 4 show ?thesis by (simp add: Let_def)
  next
    case (2 a')
    with "4.prems" show ?thesis by (simp add: Let_def b64_pad)
  next
    case (3 a' b')
    with "4.prems" show ?thesis by (simp add: Let_def b64_pad)
  next
    case (4 a' b' c' r')
    with "4.prems" have e: "unat a div 4 = unat a' div 4"
       "unat a mod 4 * 16 + unat b div 16 = unat a' mod 4 * 16 + unat b' div 16"
       "unat b mod 16 * 4 + unat c div 64 = unat b' mod 16 * 4 + unat c' div 64"
       "unat c mod 64 = unat c' mod 64" and r: "base64 r = base64 r'"
      by (simp_all add: Let_def b64_inj sextets)
    have "unat b div 16 < 16" "unat b' div 16 < 16" using unat8 [of b] unat8 [of b'] by simp_all
    note q1 = quot_rem_unique [OF this e(2)]
    have "unat c div 64 < 4" "unat c' div 64 < 4" using unat8 [of c] unat8 [of c'] by simp_all
    note q2 = quot_rem_unique [OF this e(3)]
    have "unat a = unat a'" by (rule div_mod_join [where n = 4]) (use q1 e in simp_all)
    moreover have "unat b = unat b'" by (rule div_mod_join [where n = 16]) (use q1 q2 in simp_all)
    moreover have "unat c = unat c'" by (rule div_mod_join [where n = 64]) (use q2 e in simp_all)
    moreover from r "4.IH" have "r = r'" by simp
    ultimately show ?thesis using 4 by (simp add: word_unat_eq_iff)
  qed
qed

subsection \<open>UTF-8\<close>

lemma radix3:
  fixes u :: nat
  shows "u div 4096 * 4096 + u div 64 mod 64 * 64 + u mod 64 = u"
proof -
  have a: "u div 64 * 64 + u mod 64 = u" by simp
  have b: "u div 64 div 64 * 64 + u div 64 mod 64 = u div 64" by simp
  have c: "u div 64 div 64 = u div 4096" by (simp add: div_mult2_eq)
  from a b [unfolded c] show ?thesis by linarith
qed

lemma radix4:
  fixes u :: nat
  shows "u div 262144 * 262144 + u div 4096 mod 64 * 4096 + u div 64 mod 64 * 64 + u mod 64 = u"
proof -
  have a: "u div 4096 * 4096 + u div 64 mod 64 * 64 + u mod 64 = u" by (rule radix3)
  have b: "u div 4096 div 64 * 64 + u div 4096 mod 64 = u div 4096" by simp
  have c: "u div 4096 div 64 = u div 262144" by (simp add: div_mult2_eq)
  from a b [unfolded c] show ?thesis by linarith
qed

lemma surrogate_split:
  fixes u v :: nat
  assumes "0xD800 \<le> u" "u < 0xDC00" "0xDC00 \<le> v" "v < 0xE000"
    and "cp = 0x10000 + (u - 0xD800) * 0x400 + (v - 0xDC00)"
  shows "0xD800 + (cp - 0x10000) div 0x400 = u" "0xDC00 + (cp - 0x10000) mod 0x400 = v"
    "cp < 0x110000"
proof -
  have e: "cp - 0x10000 = (u - 0xD800) * 0x400 + (v - 0xDC00)" using assms by simp
  have r: "v - 0xDC00 < 0x400" using assms by linarith
  from r have "((u - 0xD800) * 0x400 + (v - 0xDC00)) div 0x400 = u - 0xD800" by simp
  with e assms show "0xD800 + (cp - 0x10000) div 0x400 = u" by simp
  from r have "((u - 0xD800) * 0x400 + (v - 0xDC00)) mod 0x400 = v - 0xDC00" by simp
  with e assms show "0xDC00 + (cp - 0x10000) mod 0x400 = v" by simp
  show "cp < 0x110000" using assms by linarith
qed

lemma decode_1: "b < 0x80 \<Longrightarrow> utf8_decode (b # bs) = of_nat b # utf8_decode bs"
  by simp

lemma decode_2:
  "q < 32 \<Longrightarrow> utf8_decode ((0xC0 + q) # (0x80 + m) # r) = of_nat (q * 64 + m) # utf8_decode r"
  by simp

lemma decode_3:
  "q < 16 \<Longrightarrow> utf8_decode ((0xE0 + q) # (0x80 + m) # (0x80 + n) # r) =
     of_nat (q * 4096 + m * 64 + n) # utf8_decode r"
  by simp

lemma decode_4:
  "utf8_decode ((0xF0 + q) # (0x80 + m) # (0x80 + n) # (0x80 + k) # r) =
     of_nat (0xD800 + (q * 262144 + m * 4096 + n * 64 + k - 0x10000) div 0x400) #
     of_nat (0xDC00 + (q * 262144 + m * 4096 + n * 64 + k - 0x10000) mod 0x400) # utf8_decode r"
  by (simp add: Let_def)

lemma code_unit_cases:
  fixes u :: nat
  obtains (ascii) "u < 0x80"
    | (two) "0x80 \<le> u" "u < 0x800"
    | (high) "0xD800 \<le> u" "u < 0xDC00"
    | (low) "0xDC00 \<le> u" "u < 0xE000"
    | (three) "0x800 \<le> u" "\<not> (0xD800 \<le> u \<and> u < 0xE000)"
  by linarith

lemma utf8_roundtrip: "isWellFormed s \<Longrightarrow> utf8_decode (utf8 s) = s"
proof (induction "length s" arbitrary: s rule: less_induct)
  case less
  show ?case
  proof (cases s)
    case Nil
    then show ?thesis by simp
  next
    case (Cons c cs)
    define u where "u = unat c"
    have c: "of_nat u = c" by (simp add: u_def)
    have wf: "isWellFormed (c # cs)" using less.prems Cons by simp
    have IH: "length t \<le> length cs \<Longrightarrow> isWellFormed t \<Longrightarrow> utf8_decode (utf8 t) = t" for t
      using less.hyps [of t] Cons by simp
    have "utf8_decode (utf8 (c # cs)) = c # cs"
    proof (cases u rule: code_unit_cases)
      case ascii
      with wf have "isWellFormed cs" by (simp add: u_def Let_def)
      then have "utf8_decode (utf8 cs) = cs" by (simp add: IH)
      moreover have "utf8 (c # cs) = u # utf8 cs" using ascii by (simp add: u_def Let_def)
      ultimately show ?thesis using ascii c by (simp only: decode_1)
    next
      case two
      with wf have "isWellFormed cs" by (simp add: u_def Let_def)
      then have "utf8_decode (utf8 cs) = cs" by (simp add: IH)
      moreover have "utf8 (c # cs) = (0xC0 + u div 64) # (0x80 + u mod 64) # utf8 cs"
        using two by (simp add: u_def Let_def)
      moreover have "u div 64 < 32" using two by simp
      ultimately show ?thesis using c by (simp only: decode_2 div_mult_mod_eq)
    next
      case high
      with wf obtain d ds where cs: "cs = d # ds"
        and d: "0xDC00 \<le> unat d" "unat d < 0xE000" and wfd: "isWellFormed ds"
        by (cases cs) (simp_all add: u_def Let_def)
      define cp where "cp = 0x10000 + (u - 0xD800) * 0x400 + (unat d - 0xDC00)"
      note sp = surrogate_split [OF high d cp_def]
      have "utf8_decode (utf8 ds) = ds" using wfd cs by (simp add: IH)
      moreover have "utf8 (c # cs) = (0xF0 + cp div 262144) # (0x80 + cp div 4096 mod 64) #
                  (0x80 + cp div 64 mod 64) # (0x80 + cp mod 64) # utf8 ds"
        using high d by (simp add: u_def Let_def cs cp_def)
      ultimately show ?thesis using c sp(1,2) by (simp only: decode_4 radix4 cs of_nat_unat) simp
    next
      case low
      with wf show ?thesis by (simp add: u_def Let_def)
    next
      case three
      with wf have "isWellFormed cs" by (auto simp add: u_def Let_def split: if_splits)
      then have "utf8_decode (utf8 cs) = cs" by (simp add: IH)
      moreover have "utf8 (c # cs) =
          (0xE0 + u div 4096) # (0x80 + u div 64 mod 64) # (0x80 + u mod 64) # utf8 cs"
        using three by (auto simp add: u_def Let_def)
      moreover have "u div 4096 < 16" using unat16 [of c] by (simp add: u_def)
      ultimately show ?thesis using c by (simp only: decode_3 radix3)
    qed
    with Cons show ?thesis by simp
  qed
qed

lemma utf8_byte: "x \<in> set (utf8 s) \<Longrightarrow> x < 256"
proof (induction "length s" arbitrary: s rule: less_induct)
  case less
  show ?case
  proof (cases s)
    case Nil
    with less.prems show ?thesis by simp
  next
    case (Cons c cs)
    define u where "u = unat c"
    have b: "u div 64 mod 64 < 64" "u mod 64 < 64" "u div 4096 < 16"
      using unat16 [of c] by (simp_all add: u_def)
    have IH: "length t \<le> length cs \<Longrightarrow> x \<in> set (utf8 t) \<Longrightarrow> x < 256" for t
      using less.hyps [of t] Cons by simp
    show ?thesis
    proof (cases u rule: code_unit_cases)
      case ascii
      then have "utf8 (c # cs) = u # utf8 cs" by (simp add: u_def Let_def)
      with less.prems Cons ascii IH [of cs] show ?thesis by auto
    next
      case two
      then have "utf8 (c # cs) = (0xC0 + u div 64) # (0x80 + u mod 64) # utf8 cs"
        by (simp add: u_def Let_def)
      moreover have "u div 64 < 32" using two by simp
      ultimately show ?thesis using less.prems Cons b IH [of cs] by auto
    next
      case high
      show ?thesis
      proof (cases cs)
        case Nil
        with high less.prems Cons show ?thesis by (auto simp: u_def Let_def)
      next
        case (Cons d ds)
        show ?thesis
        proof (cases "0xDC00 \<le> unat d \<and> unat d < 0xE000")
          case True
          define cp where "cp = 0x10000 + (u - 0xD800) * 0x400 + (unat d - 0xDC00)"
          have "cp < 0x110000" using surrogate_split(3) [OF high _ _ cp_def] True by simp
          then have q: "cp div 262144 < 5" by simp
          have "utf8 (c # cs) = (0xF0 + cp div 262144) # (0x80 + cp div 4096 mod 64) #
                  (0x80 + cp div 64 mod 64) # (0x80 + cp mod 64) # utf8 ds"
            using high True by (simp add: u_def Let_def Cons cp_def)
          moreover have "cp div 4096 mod 64 < 64" "cp div 64 mod 64 < 64" "cp mod 64 < 64"
            by simp_all
          ultimately show ?thesis
            using less.prems \<open>s = c # cs\<close> q IH [of ds] Cons by auto
        next
          case False
          then have "utf8 (c # cs) = 0xEF # 0xBF # 0xBD # utf8 cs"
            using high by (auto simp add: u_def Let_def Cons)
          with less.prems \<open>s = c # cs\<close> IH [of cs] show ?thesis by auto
        qed
      qed
    next
      case low
      then have "utf8 (c # cs) = 0xEF # 0xBF # 0xBD # utf8 cs"
        by (simp add: u_def Let_def)
      with less.prems Cons IH [of cs] show ?thesis by auto
    next
      case three
      then have "utf8 (c # cs) =
          (0xE0 + u div 4096) # (0x80 + u div 64 mod 64) # (0x80 + u mod 64) # utf8 cs"
        by (auto simp add: u_def Let_def)
      with less.prems Cons b IH [of cs] show ?thesis by auto
    qed
  qed
qed

lemma utf8_bytes: "set (utf8 s) \<subseteq> {..<256}"
  by (auto dest: utf8_byte)

lemma bytes_of_nat_inj:
  assumes "set xs \<subseteq> {..<256}" "set ys \<subseteq> {..<256}"
    and "map of_nat xs = (map of_nat ys :: 8 word list)"
  shows "xs = ys"
  using assms
proof (induction xs arbitrary: ys)
  case Nil
  then show ?case by simp
next
  case (Cons x xs)
  then obtain y ys' where ys: "ys = y # ys'" by (cases ys) auto
  with Cons.prems have e: "(of_nat x :: 8 word) = of_nat y"
    and r: "map of_nat xs = (map of_nat ys' :: 8 word list)"
    by simp_all
  have "x < 256" "y < 256" using Cons.prems(1,2) ys by simp_all
  then have "unat (of_nat x :: 8 word) = x" "unat (of_nat y :: 8 word) = y"
    by (simp_all add: unat_of_nat)
  with e have "x = y" by metis
  moreover have "xs = ys'" using Cons.IH [of ys'] Cons.prems ys r by simp
  ultimately show ?case using ys by simp
qed

lemma Buffer_from_inj:
  assumes "isWellFormed a" "isWellFormed b" "Buffer_from a = Buffer_from b"
  shows "a = b"
proof -
  have "map of_nat (utf8 a) = (map of_nat (utf8 b) :: 8 word list)"
    using assms(3) by (simp only: Buffer_from_def)
  with utf8_bytes utf8_bytes have "utf8 a = utf8 b"
    by (rule bytes_of_nat_inj)
  then show ?thesis using utf8_roundtrip [OF assms(1)] utf8_roundtrip [OF assms(2)] by metis
qed

lemma js_Nil: "js [] = []"
  by (simp add: js_def)

lemma js_Cons: "js (c # s) = of_nat (of_char c) # js s"
  by (simp add: js_def)

lemma js_unit: "unat (of_nat (of_char c) :: 16 word) = of_char c"
proof -
  have "(of_char c :: nat) < 256" by simp
  then have "(of_char c :: nat) < 65536" by linarith
  then show ?thesis by (simp add: unat_of_nat)
qed

lemma js_inj: "js a = js b \<Longrightarrow> a = b"
proof (induction a arbitrary: b)
  case Nil
  then show ?case by (cases b) (simp_all add: js_Nil js_Cons)
next
  case (Cons x xs)
  then obtain y ys where b: "b = y # ys" by (cases b) (simp_all add: js_Nil js_Cons)
  with Cons.prems have e: "(of_nat (of_char x) :: 16 word) = of_nat (of_char y)"
    and r: "js xs = js ys"
    by (simp_all only: js_Cons list.inject)
  from e have "unat (of_nat (of_char x) :: 16 word) = unat (of_nat (of_char y) :: 16 word)"
    by (rule arg_cong)
  then have "(of_char x :: nat) = of_char y" by (simp only: js_unit)
  then have "x = y" by simp
  with Cons.IH [OF r] b show ?case by simp
qed

lemma isWellFormed_js: "isWellFormed (js s)"
proof (induction s)
  case Nil
  show ?case by (simp add: js_Nil)
next
  case (Cons c s)
  have "(of_char c :: nat) < 256" by simp
  then have "unat (of_nat (of_char c) :: 16 word) < 256" by (simp only: js_unit)
  with Cons show ?case by (simp add: js_Cons Let_def)
qed

lemma entryId_one_to_one:
  assumes "isWellFormed u1" "isWellFormed u2" "entryId u1 = entryId u2"
  shows "u1 = u2"
proof -
  from assms(3) have "base64 (Buffer_from u1) = base64 (Buffer_from u2)"
    unfolding entryId_def toString_base64_def by (rule js_inj)
  then have "Buffer_from u1 = Buffer_from u2" by (rule base64_inj)
  with assms(1,2) show ?thesis by (rule Buffer_from_inj)
qed

text \<open>
  C1. The entry id is a function of the media URL, so deriving it twice from one URL
  gives one value. A media URL is the serialization of a URL, which holds no unpaired
  surrogate. On such strings the derivation is one-to-one: two URLs have the same id
  exactly when they are the same URL, since the UTF-8 encoding can be decoded and the
  base64 text determines the bytes.
\<close>

theorem entryId_injective_on_well_formed:
  assumes "isWellFormed u1" and "isWellFormed u2"
  shows "entryId u1 = entryId u2 \<longleftrightarrow> u1 = u2"
  using assms by (auto dest: entryId_one_to_one)

theorem entryId_injective_on_well_formed_witness:
  "isWellFormed (js ''http://a.io/v.mp4'') \<and> isWellFormed (js ''http://a.io/w.mp4'') \<and>
   js ''http://a.io/v.mp4'' \<noteq> js ''http://a.io/w.mp4'' \<and>
   entryId (js ''http://a.io/v.mp4'') \<noteq> entryId (js ''http://a.io/w.mp4'')"
proof -
  have d: "js ''http://a.io/v.mp4'' \<noteq> js ''http://a.io/w.mp4''"
    by (simp add: js_def)
  from entryId_injective_on_well_formed [OF isWellFormed_js isWellFormed_js,
      of "''http://a.io/v.mp4''" "''http://a.io/w.mp4''"] d
  show ?thesis by (simp add: isWellFormed_js)
qed

section \<open>The entry store: upsert and lookup\<close>

lemma updateOne_keys:
  assumes "entry_key doc = (fid, fcat)"
  shows "set (map entry_key (updateOne fid fcat doc coll)) =
    insert (fid, fcat) (set (map entry_key coll))"
  using assms by (induction coll) (auto simp: entry_key_def)

lemma updateOne_distinct:
  assumes "entry_key doc = (fid, fcat)" "distinct (map entry_key coll)"
  shows "distinct (map entry_key (updateOne fid fcat doc coll))"
  using assms(2)
proof (induction coll)
  case Nil
  then show ?case by simp
next
  case (Cons x xs)
  show ?case
  proof (cases "entry_key x = (fid, fcat)")
    case True
    with Cons.prems assms(1) show ?thesis by (simp add: entry_key_def)
  next
    case False
    have "entry_key x \<notin> set (map entry_key (updateOne fid fcat doc xs))"
      using False Cons.prems by (simp only: updateOne_keys [OF assms(1)]) simp
    with False Cons show ?thesis by (auto simp: entry_key_def)
  qed
qed

lemma updateOne_filter:
  assumes "entry_key doc = (fid, fcat)" "distinct (map entry_key coll)"
  shows "filter (\<lambda>e. entry_key e = (fid, fcat)) (updateOne fid fcat doc coll) = [doc]"
  using assms(2)
proof (induction coll)
  case Nil
  with assms(1) show ?case by simp
next
  case (Cons x xs)
  show ?case
  proof (cases "entry_key x = (fid, fcat)")
    case True
    with Cons.prems have "(fid, fcat) \<notin> set (map entry_key xs)" by simp
    then have "filter (\<lambda>e. entry_key e = (fid, fcat)) xs = []"
      by (force simp: filter_empty_conv)
    with True assms(1) show ?thesis by (simp add: entry_key_def)
  next
    case False
    with Cons show ?thesis by (auto simp: entry_key_def)
  qed
qed

lemma entryOf_key: "entry_key (entryOf c data u) = (entryId u, c)"
  by (simp add: entry_key_def entryOf_def)

lemma updateOne_filter_other:
  assumes "entry_key doc = (fid, fcat)" "k \<noteq> (fid, fcat)"
  shows "filter (\<lambda>e. entry_key e = k) (updateOne fid fcat doc coll) =
         filter (\<lambda>e. entry_key e = k) coll"
  using assms by (induction coll) (auto simp: entry_key_def)

text \<open>
  The loop over \<^verbatim>\<open>videos\<close>, when no write is rejected: a media URL of the list, or
  one whose entry was there before and is not touched, ends with exactly one entry for
  its key, the one built from the page data of this crawl.
\<close>

lemma storeVideos_upsert:
  assumes "storeVideos env c data vs st = (None, st')"
    and "distinct (map entry_key (db st))"
    and "\<forall>v\<in>set vs. entryId v = entryId u \<longrightarrow> v = u"
    and "u \<in> set vs \<or>
         filter (\<lambda>e. entry_key e = (entryId u, c)) (db st) = [entryOf c data u]"
  shows "filter (\<lambda>e. entry_key e = (entryId u, c)) (db st') = [entryOf c data u] \<and>
         distinct (map entry_key (db st'))"
  using assms
proof (induction env c data vs st rule: storeVideos.induct)
  case (1 env catalogId data st)
  then show ?case by simp
next
  case (2 env catalogId data videoUrl rest st)
  define doc where "doc = entryOf catalogId data videoUrl"
  define t where "t = st\<lparr>db := updateOne (entryId videoUrl) catalogId doc (db st)\<rparr>"
  have k: "entry_key doc = (entryId videoUrl, catalogId)" by (simp add: doc_def entryOf_key)
  from "2.prems"(1) have acc: "store_rejects env doc = None"
    by (cases "store_rejects env doc") (simp_all add: Let_def doc_def)
  with "2.prems"(1) have run: "storeVideos env catalogId data rest t = (None, st')"
    by (simp add: Let_def doc_def t_def)
  have d: "distinct (map entry_key (db t))"
    using updateOne_distinct [OF k "2.prems"(2)] by (simp add: t_def)
  have u: "\<forall>v\<in>set rest. entryId v = entryId u \<longrightarrow> v = u" using "2.prems"(3) by simp
  have "u \<in> set rest \<or>
        filter (\<lambda>e. entry_key e = (entryId u, catalogId)) (db t) = [entryOf catalogId data u]"
  proof (cases "entryId videoUrl = entryId u")
    case True
    with "2.prems"(3) have "videoUrl = u" by simp
    with updateOne_filter [OF k "2.prems"(2)] show ?thesis by (simp add: t_def doc_def)
  next
    case False
    then have "(entryId u, catalogId) \<noteq> (entryId videoUrl, catalogId)" by simp
    from updateOne_filter_other [OF k this, of "db st"] "2.prems"(4) False
    show ?thesis by (auto simp: t_def)
  qed
  from "2.IH" [OF refl acc [unfolded doc_def] run [unfolded t_def doc_def] d [unfolded t_def doc_def] u
      this [unfolded t_def doc_def]]
  show ?case .
qed

text \<open>
  C3. The store holds at most one entry per key \<open>(entryId, catalogId)\<close>, as the empty
  store does and as every crawl keeps it. The crawl of a page, with the page data \<open>A\<close>,
  upserts its media URLs, and a later crawl in the same catalog, with the page data
  \<open>B\<close>, upserts its own; no write is rejected. Then a media URL of the first crawl has
  exactly one entry for its key after it, built from \<open>A\<close>; and a media URL of the second
  crawl, whether the first crawl had it or not, has exactly one entry for its key in
  the end, whose fields are the catalog id, the entry id, the title, description and
  image of \<open>B\<close>, and the media URL; and the keys of the store are still unique.
\<close>

theorem upsert_last_write_wins:
  assumes "distinct (map entry_key (db st))"
    and "storeVideos env c A vsA st = (None, st1)"
    and "storeVideos env c B vsB st1 = (None, st2)"
    and "\<forall>v\<in>set (vsA @ vsB). isWellFormed v"
  shows "(u \<in> set vsA \<longrightarrow>
            filter (\<lambda>e. entry_key e = (entryId u, c)) (db st1) =
              [\<lparr> entry_catalogId = c, entry_id = entryId u, entry_name = title A,
                 entry_description = description A, entry_poster = image A,
                 entry_videoUrl = u \<rparr>]) \<and>
         (u \<in> set vsB \<longrightarrow>
            filter (\<lambda>e. entry_key e = (entryId u, c)) (db st2) =
              [\<lparr> entry_catalogId = c, entry_id = entryId u, entry_name = title B,
                 entry_description = description B, entry_poster = image B,
                 entry_videoUrl = u \<rparr>]) \<and>
         distinct (map entry_key (db st2))"
proof -
  have a: "filter (\<lambda>e. entry_key e = (entryId u, c)) (db st1) = [entryOf c A u]"
    if m: "u \<in> set vsA"
  proof -
    from assms(4) m have "\<forall>v\<in>set vsA. entryId v = entryId u \<longrightarrow> v = u"
      by (auto dest: entryId_one_to_one)
    from storeVideos_upsert [OF assms(2) assms(1) this] m show ?thesis by simp
  qed
  have d1: "distinct (map entry_key (db st1))"
  proof (cases vsA)
    case Nil
    with assms(2,1) show ?thesis by simp
  next
    case (Cons v vs)
    from assms(4) Cons have "\<forall>x\<in>set vsA. entryId x = entryId v \<longrightarrow> x = v"
      by (auto dest: entryId_one_to_one)
    from storeVideos_upsert [OF assms(2) assms(1) this] Cons show ?thesis by simp
  qed
  have b: "filter (\<lambda>e. entry_key e = (entryId u, c)) (db st2) = [entryOf c B u]"
    if m: "u \<in> set vsB"
  proof -
    from assms(4) m have "\<forall>v\<in>set vsB. entryId v = entryId u \<longrightarrow> v = u"
      by (auto dest: entryId_one_to_one)
    from storeVideos_upsert [OF assms(3) d1 this] m show ?thesis by simp
  qed
  have d2: "distinct (map entry_key (db st2))"
  proof (cases vsB)
    case Nil
    with assms(3) d1 show ?thesis by simp
  next
    case (Cons v vs)
    from assms(4) Cons have "\<forall>x\<in>set vsB. entryId x = entryId v \<longrightarrow> x = v"
      by (auto dest: entryId_one_to_one)
    from storeVideos_upsert [OF assms(3) d1 this] Cons show ?thesis by simp
  qed
  from a b d2 show ?thesis by (simp add: entryOf_def)
qed

theorem upsert_last_write_wins_witness:
  "distinct (map entry_key (db st0)) \<and>
   fst (storeVideos (env_of []) (js ''catalog-a-io'') page_A (videos page_A) st0) = None \<and>
   filter (\<lambda>e. entry_key e = (entryId (js ''http://a.io/v.mp4''), js ''catalog-a-io''))
     (db (snd (storeVideos (env_of []) (js ''catalog-a-io'') page_B (videos page_B)
        (snd (storeVideos (env_of []) (js ''catalog-a-io'') page_A (videos page_A) st0))))) =
     [\<lparr> entry_catalogId = js ''catalog-a-io'', entry_id = entryId (js ''http://a.io/v.mp4''),
        entry_name = js ''B'', entry_description = js ''new'',
        entry_poster = js ''http://a.io/p.png'', entry_videoUrl = js ''http://a.io/v.mp4'' \<rparr>]"
proof -
  let ?c = "js ''catalog-a-io''"
  let ?s1 = "snd (storeVideos (env_of []) ?c page_A (videos page_A) st0)"
  let ?s2 = "snd (storeVideos (env_of []) ?c page_B (videos page_B) ?s1)"
  have d: "distinct (map entry_key (db st0))" by (simp add: st0_def)
  have n: "fst (storeVideos (env_of []) ?c page_A (videos page_A) st0) = None"
    by (simp add: page_A_def env_of_def Let_def)
  have h1: "storeVideos (env_of []) ?c page_A (videos page_A) st0 = (None, ?s1)"
    by (simp add: page_A_def env_of_def Let_def)
  have h2: "storeVideos (env_of []) ?c page_B (videos page_B) ?s1 = (None, ?s2)"
    by (simp add: page_A_def page_B_def env_of_def Let_def)
  have w: "\<forall>v\<in>set (videos page_A @ videos page_B). isWellFormed v"
    by (simp add: page_A_def page_B_def isWellFormed_js)
  have m: "js ''http://a.io/v.mp4'' \<in> set (videos page_B)" by (simp add: page_B_def)
  from upsert_last_write_wins [OF d h1 h2 w, of "js ''http://a.io/v.mp4''"] m
  have "filter (\<lambda>e. entry_key e = (entryId (js ''http://a.io/v.mp4''), ?c)) (db ?s2) =
        [\<lparr> entry_catalogId = ?c, entry_id = entryId (js ''http://a.io/v.mp4''),
           entry_name = title page_B, entry_description = description page_B,
           entry_poster = image page_B, entry_videoUrl = js ''http://a.io/v.mp4'' \<rparr>]"
    by simp
  with d n show ?thesis by (simp add: page_B_def)
qed

lemma find_Some_first:
  "find P xs = Some x \<Longrightarrow> x \<in> set xs \<and> P x"
  by (induction xs) (auto split: if_splits)

lemma find_None_all: "find P xs = None \<longleftrightarrow> \<not> (\<exists>x\<in>set xs. P x)"
  by (induction xs) auto

text \<open>
  C10. Both handlers look an entry up by its id alone. When the store holds an entry
  with the queried id, in whatever catalog, the stream handler answers with exactly one
  stream, the media URL of a stored entry with that id, and the meta handler with the
  display metadata of the same entry; when it holds none, the stream list is empty and
  the meta answer is the empty object. Both handlers are total.
\<close>

theorem stream_and_meta_by_id:
  "if (\<exists>e\<in>set coll. entry_id e = q)
   then (\<exists>e\<in>set coll. entry_id e = q \<and> streamHandler coll q = [entry_videoUrl e] \<and>
           metaHandler coll q = Some (metaOf e))
   else streamHandler coll q = [] \<and> metaHandler coll q = None"
proof (cases "findOne q coll")
  case None
  then have "\<not> (\<exists>e\<in>set coll. entry_id e = q)" by (simp add: findOne_def find_None_all)
  with None show ?thesis by (simp add: streamHandler_def metaHandler_def)
next
  case (Some e)
  then have "e \<in> set coll \<and> entry_id e = q"
    unfolding findOne_def by (rule find_Some_first)
  with Some show ?thesis by (auto simp: streamHandler_def metaHandler_def metaOf_def)
qed

theorem stream_and_meta_by_id_witness:
  "streamHandler two_catalogs (entryId (js ''http://a.io/v.mp4'')) = [js ''http://a.io/v.mp4''] \<and>
   metaHandler two_catalogs (entryId (js ''http://a.io/v.mp4'')) =
     Some \<lparr> meta_id = entryId (js ''http://a.io/v.mp4''), meta_type = js ''movie'',
            meta_name = js ''A'', meta_poster = js ''No Data'', meta_description = js ''No Data'' \<rparr> \<and>
   streamHandler two_catalogs (js ''nothing'') = [] \<and>
   metaHandler two_catalogs (js ''nothing'') = None"
proof -
  have a: "\<exists>e\<in>set two_catalogs. entry_id e = entryId (js ''http://a.io/v.mp4'')"
    by (simp add: two_catalogs_def entryOf_def)
  have n: "\<not> (\<exists>e\<in>set two_catalogs. entry_id e = js ''nothing'')"
    by (simp add: two_catalogs_def entryOf_def entryId_def toString_base64_def Buffer_from_def js_def Let_def)
  have v: "\<And>e. e \<in> set two_catalogs \<Longrightarrow> entry_videoUrl e = js ''http://a.io/v.mp4''"
    by (auto simp: two_catalogs_def entryOf_def)
  have m: "metaHandler two_catalogs (entryId (js ''http://a.io/v.mp4'')) =
     Some \<lparr> meta_id = entryId (js ''http://a.io/v.mp4''), meta_type = js ''movie'',
            meta_name = js ''A'', meta_poster = js ''No Data'', meta_description = js ''No Data'' \<rparr>"
    by (simp add: metaHandler_def findOne_def two_catalogs_def entryOf_def page_A_def)
  from stream_and_meta_by_id [of two_catalogs "entryId (js ''http://a.io/v.mp4'')"] a v
  have "streamHandler two_catalogs (entryId (js ''http://a.io/v.mp4'')) = [js ''http://a.io/v.mp4'']"
    by auto
  moreover from stream_and_meta_by_id [of two_catalogs "js ''nothing''"] n
  have "streamHandler two_catalogs (js ''nothing'') = [] \<and> metaHandler two_catalogs (js ''nothing'') = None"
    by simp
  ultimately show ?thesis using m by simp
qed

section \<open>Facts about one page fetch and one walk\<close>

lemma opened_append: "opened (a @ b) = opened a @ opened b"
  by (simp add: opened_def)

lemma closed_append: "closed (a @ b) = closed a @ closed b"
  by (simp add: closed_def)

lemma fetched_append: "fetched (a @ b) = fetched a @ fetched b"
  by (simp add: fetched_def)

lemma fetched_Nil: "fetched [] = []"
  by (simp add: fetched_def)

lemmas fetch_defs =
  fetchPageData_def tryBlock_def catchBlock_def closePage_def emit_def Let_def

lemma fetchPageData_db: "db (snd (fetchPageData env url st)) = db st"
  by (simp add: fetch_defs split: option.splits rendering.splits)

lemma fetchPageData_sites: "sitesToScrape (snd (fetchPageData env url st)) = sitesToScrape st"
  by (simp add: fetch_defs split: option.splits rendering.splits)

lemma fetchPageData_result: "fst (fetchPageData env url st) = fst (fetchPageData env url st')"
  by (simp add: fetch_defs split: option.splits rendering.splits)

text \<open>
  A fetch that returns, with the page data or with \<^verbatim>\<open>null\<close>, has navigated to the URL
  and has opened one rendering context and released it as its last effect.
\<close>

lemma fetchPageData_returns:
  assumes "fetchPageData env url st = (Inr x, st1)"
  shows "\<exists>ev. trace st1 = trace st @ ev \<and> list_all page_event ev \<and> fetched ev = [url] \<and>
           opened ev = [pagesOpened st] \<and> closed ev = [pagesOpened st] \<and>
           last ev = PageClose (pagesOpened st)"
  using assms
  by (auto simp add: fetch_defs fetched_def opened_def closed_def
      split: option.splits rendering.splits)

text \<open>
  A fetch that raises has released no rendering context; the exception is the
  rejection of a call on the browser.
\<close>

lemma fetchPageData_raises:
  assumes "fetchPageData env url st = (Inl e, st1)"
  shows "\<exists>ev. trace st1 = trace st @ ev \<and> list_all page_event ev \<and> distinct (fetched ev) \<and>
           set (fetched ev) \<subseteq> {url} \<and> closed ev = [] \<and> (\<exists>err. e = BrowserError err)"
  using assms
  by (auto simp add: fetch_defs fetched_def opened_def closed_def
      split: option.splits rendering.splits)

lemma storeVideos_trace: "trace (snd (storeVideos env c data vs st)) = trace st"
  by (induction env c data vs st rule: storeVideos.induct) (simp_all add: Let_def split: option.splits)

lemma storeVideos_sites: "sitesToScrape (snd (storeVideos env c data vs st)) = sitesToScrape st"
  by (induction env c data vs st rule: storeVideos.induct) (simp_all add: Let_def split: option.splits)

lemma storeVideos_db_only:
  "db st' = db st \<Longrightarrow>
   fst (storeVideos env c data vs st') = fst (storeVideos env c data vs st) \<and>
   db (snd (storeVideos env c data vs st')) = db (snd (storeVideos env c data vs st))"
proof (induction env c data vs st arbitrary: st' rule: storeVideos.induct)
  case (1 env catalogId data st)
  then show ?case by simp
next
  case (2 env catalogId data videoUrl rest st)
  define doc where "doc = entryOf catalogId data videoUrl"
  show ?case
  proof (cases "store_rejects env doc")
    case None
    define t where "t = st\<lparr>db := updateOne (entryId videoUrl) catalogId doc (db st)\<rparr>"
    define t' where "t' = st'\<lparr>db := updateOne (entryId videoUrl) catalogId doc (db st')\<rparr>"
    have e: "storeVideos env catalogId data (videoUrl # rest) st = storeVideos env catalogId data rest t"
      "storeVideos env catalogId data (videoUrl # rest) st' = storeVideos env catalogId data rest t'"
      using None by (simp_all add: Let_def doc_def t_def t'_def)
    have "db t' = db t" using "2.prems" by (simp add: t_def t'_def)
    from "2.IH" [OF refl None [unfolded doc_def] this [unfolded t_def doc_def]]
    show ?thesis unfolding e t_def doc_def .
  next
    case (Some err)
    with "2.prems" show ?thesis by (simp add: Let_def doc_def)
  qed
qed

lemma scrapeSite_visited:
  "site_url s \<in> visited \<Longrightarrow> scrapeSite env s (visited, st) = (None, (visited, st))"
  by simp

lemma scrapeSite_unvisited:
  "site_url s \<notin> visited \<Longrightarrow>
   scrapeSite env s (visited, st) =
     (case fetchPageData env (site_url s) st of
        (Inl e, st1) \<Rightarrow> (Some e, (insert (site_url s) visited, st1))
      | (Inr None, st1) \<Rightarrow> (None, (insert (site_url s) visited, st1))
      | (Inr (Some data), st1) \<Rightarrow>
          (case storeVideos env (site_id s) data (videos data) st1 of
             (Some e, st2) \<Rightarrow> (Some e, (insert (site_url s) visited, st2))
           | (None, st2) \<Rightarrow>
               scrapeLinks env (site_id s) (subLinks data) (insert (site_url s) visited, st2)))"
  by simp

declare scrapeSite.simps [simp del]

text \<open>The three ways through \<^verbatim>\<open>scrapeSite\<close> at a URL that is not visited yet.\<close>

lemma scrapeSite_raise:
  "site_url s \<notin> visited \<Longrightarrow> fetchPageData env (site_url s) st = (Inl e, st1) \<Longrightarrow>
   scrapeSite env s (visited, st) = (Some e, (insert (site_url s) visited, st1))"
  by (simp add: scrapeSite_unvisited)

lemma scrapeSite_null:
  "site_url s \<notin> visited \<Longrightarrow> fetchPageData env (site_url s) st = (Inr None, st1) \<Longrightarrow>
   scrapeSite env s (visited, st) = (None, (insert (site_url s) visited, st1))"
  by (simp add: scrapeSite_unvisited)

lemma scrapeSite_data:
  "site_url s \<notin> visited \<Longrightarrow> fetchPageData env (site_url s) st = (Inr (Some data), st1) \<Longrightarrow>
   scrapeSite env s (visited, st) =
     (case storeVideos env (site_id s) data (videos data) st1 of
        (Some e, st2) \<Rightarrow> (Some e, (insert (site_url s) visited, st2))
      | (None, st2) \<Rightarrow>
          scrapeLinks env (site_id s) (subLinks data) (insert (site_url s) visited, st2))"
  by (simp add: scrapeSite_unvisited)

lemma walk_ok_refl: "walk_ok w (x, w)"
  by (simp add: walk_ok_def fetched_def opened_def closed_def)

lemma walk_ok_trans:
  assumes "walk_ok w (None, w1)" "walk_ok w1 r"
  shows "walk_ok w r"
proof -
  from assms(1) obtain ev1 where 1: "trace (snd w1) = trace (snd w) @ ev1"
    "list_all page_event ev1" "distinct (fetched ev1)" "fst w1 = fst w \<union> set (fetched ev1)"
    "set (fetched ev1) \<inter> fst w = {}" "closed ev1 = opened ev1"
    "sitesToScrape (snd w1) = sitesToScrape (snd w)"
    by (auto simp: walk_ok_def)
  from assms(2) obtain ev2 where 2: "trace (snd (snd r)) = trace (snd w1) @ ev2"
    "list_all page_event ev2" "distinct (fetched ev2)"
    "fst w1 \<union> set (fetched ev2) \<subseteq> fst (snd r)"
    "set (fetched ev2) \<inter> fst w1 = {}"
    "fst r = None \<longrightarrow> fst (snd r) = fst w1 \<union> set (fetched ev2) \<and> closed ev2 = opened ev2"
    "sitesToScrape (snd (snd r)) = sitesToScrape (snd w1)"
    by (auto simp: walk_ok_def)
  have t1: "trace (snd (snd r)) = trace (snd w) @ (ev1 @ ev2)" using 1(1) 2(1) by simp
  have t2: "list_all page_event (ev1 @ ev2)" using 1(2) 2(2) by simp
  have t3: "distinct (fetched (ev1 @ ev2))"
    using 1(3,4) 2(3,5) by (auto simp: fetched_append)
  have t4: "set (fetched (ev1 @ ev2)) \<inter> fst w = {}"
    using 1(4,5) 2(5) by (auto simp: fetched_append)
  have t5: "fst w \<union> set (fetched (ev1 @ ev2)) \<subseteq> fst (snd r)"
    using 1(4) 2(4) by (auto simp: fetched_append)
  have t6: "fst r = None \<longrightarrow>
      fst (snd r) = fst w \<union> set (fetched (ev1 @ ev2)) \<and> closed (ev1 @ ev2) = opened (ev1 @ ev2)"
    using 1(4,6) 2(6) by (auto simp: fetched_append opened_append closed_append)
  have t7: "sitesToScrape (snd (snd r)) = sitesToScrape (snd w)" using 1(7) 2(7) by simp
  show ?thesis unfolding walk_ok_def
    by (rule exI [of _ "ev1 @ ev2"]) (intro conjI t1 t2 t3 t4 t5 t6 t7)
qed

lemma walk_ok_fetch:
  assumes "url \<notin> visited" "fetchPageData env url st = (Inr r, st1)"
  shows "walk_ok (visited, st) (x, (insert url visited, st1))"
proof -
  from fetchPageData_returns [OF assms(2)]
  obtain ev where "trace st1 = trace st @ ev" "list_all page_event ev" "fetched ev = [url]"
    "opened ev = [pagesOpened st]" "closed ev = [pagesOpened st]"
    by auto
  moreover from fetchPageData_sites [of env url st] assms(2)
  have "sitesToScrape st1 = sitesToScrape st" by simp
  ultimately show ?thesis using assms(1) unfolding walk_ok_def by (intro exI [of _ ev]) simp
qed

lemma walk_ok_raise:
  assumes "url \<notin> visited" "fetchPageData env url st = (Inl e, st1)"
  shows "walk_ok (visited, st) (Some e', (insert url visited, st1))"
proof -
  from fetchPageData_raises [OF assms(2)]
  obtain ev where "trace st1 = trace st @ ev" "list_all page_event ev" "distinct (fetched ev)"
    "set (fetched ev) \<subseteq> {url}"
    by auto
  moreover from fetchPageData_sites [of env url st] assms(2)
  have "sitesToScrape st1 = sitesToScrape st" by simp
  ultimately show ?thesis using assms(1) unfolding walk_ok_def
    by (intro exI [of _ ev]) auto
qed

lemma walk_ok_store:
  assumes "storeVideos env c data vs st = (r, st1)"
  shows "walk_ok (V, st) (x, (V, st1))"
proof -
  from storeVideos_trace [of env c data vs st] assms have "trace st1 = trace st" by simp
  moreover from storeVideos_sites [of env c data vs st] assms
  have "sitesToScrape st1 = sitesToScrape st" by simp
  ultimately show ?thesis unfolding walk_ok_def
    by (intro exI [of _ "[]"]) (simp add: fetched_def opened_def closed_def)
qed

lemma walk_invariant:
  "walk_ok w (scrapeSite env s w)"
  "walk_ok w (scrapeLinks env c links w)"
proof (induction env s w and env c links w rule: scrapeSite_scrapeLinks.induct)
  case (1 env s visited st)
  show ?case
  proof (cases "site_url s \<in> visited")
    case True
    then show ?thesis by (simp add: scrapeSite_visited walk_ok_refl)
  next
    case False
    obtain r st1 where f: "fetchPageData env (site_url s) st = (r, st1)"
      by (cases "fetchPageData env (site_url s) st")
    show ?thesis
    proof (cases r)
      case (Inl e)
      from walk_ok_raise [OF False f [unfolded Inl]] scrapeSite_raise [OF False f [unfolded Inl]]
      show ?thesis by simp
    next
      case (Inr res)
      note wf = walk_ok_fetch [OF False f [unfolded Inr]]
      show ?thesis
      proof (cases res)
        case None
        from wf scrapeSite_null [OF False f [unfolded Inr None]] show ?thesis by simp
      next
        case (Some data)
        obtain x st2 where v: "storeVideos env (site_id s) data (videos data) st1 = (x, st2)"
          by (cases "storeVideos env (site_id s) data (videos data) st1")
        have ws: "walk_ok (visited, st) (y, (insert (site_url s) visited, st2))" for y
          using wf walk_ok_store [OF v] by (rule walk_ok_trans)
        note e = scrapeSite_data [OF False f [unfolded Inr Some]]
        show ?thesis
        proof (cases x)
          case None
          from 1 [OF False f [symmetric] Inr Some v [symmetric] None]
          have "walk_ok (insert (site_url s) visited, st2)
                  (scrapeLinks env (site_id s) (subLinks data) (insert (site_url s) visited, st2))" .
          with ws have "walk_ok (visited, st)
                  (scrapeLinks env (site_id s) (subLinks data) (insert (site_url s) visited, st2))"
            by (rule walk_ok_trans)
          then show ?thesis using e v None by simp
        next
          case (Some e')
          with e v ws show ?thesis by simp
        qed
      qed
    qed
  qed
next
  case (2 env catalogId w)
  show ?case by (simp add: walk_ok_refl)
next
  case (3 env catalogId subLink rest w)
  obtain x w1 where r: "scrapeSite env \<lparr>site_url = subLink, site_id = catalogId\<rparr> w = (x, w1)"
    by (cases "scrapeSite env \<lparr>site_url = subLink, site_id = catalogId\<rparr> w")
  from 3(1) r have a: "walk_ok w (x, w1)" by simp
  show ?case
  proof (cases x)
    case None
    from 3(2) [OF r [symmetric] None] have "walk_ok w1 (scrapeLinks env catalogId rest w1)" .
    with a [unfolded None] have "walk_ok w (scrapeLinks env catalogId rest w1)"
      by (rule walk_ok_trans)
    with r None show ?thesis by simp
  next
    case (Some e)
    with r a show ?thesis by simp
  qed
qed

subsection \<open>The store decides a walk\<close>

text \<open>
  Which exception ends a walk, which URLs it visits and what it leaves in the store
  depend on the store it starts from, not on the trace or the page counter.
\<close>

lemma outcome_eq:
  "outcome (x', w') = outcome (x, w) \<longleftrightarrow>
     x' = x \<and> fst w' = fst w \<and> db (snd w') = db (snd w)"
  by (auto simp: outcome_def)

lemma walk_db_only:
  "\<forall>st'. db st' = db (snd w) \<longrightarrow>
     outcome (scrapeSite env s (fst w, st')) = outcome (scrapeSite env s w)"
  "\<forall>st'. db st' = db (snd w) \<longrightarrow>
     outcome (scrapeLinks env c links (fst w, st')) = outcome (scrapeLinks env c links w)"
proof (induction env s w and env c links w rule: scrapeSite_scrapeLinks.induct)
  case (1 env s visited st)
  show ?case
  proof (intro allI impI)
    fix st' :: state
    assume "db st' = db (snd (visited, st))"
    then have d: "db st' = db st" by simp
    show "outcome (scrapeSite env s (fst (visited, st), st')) = outcome (scrapeSite env s (visited, st))"
    proof (cases "site_url s \<in> visited")
      case True
      with d show ?thesis by (simp add: scrapeSite_visited outcome_def)
    next
      case False
      obtain r st1 where f: "fetchPageData env (site_url s) st = (r, st1)"
        by (cases "fetchPageData env (site_url s) st")
      obtain r' st1' where f': "fetchPageData env (site_url s) st' = (r', st1')"
        by (cases "fetchPageData env (site_url s) st'")
      have rr: "r' = r" using fetchPageData_result [of env "site_url s" st' st] f f' by simp
      have d1: "db st1' = db st1"
        using fetchPageData_db [of env "site_url s" st] fetchPageData_db [of env "site_url s" st'] f f' d
        by simp
      show ?thesis
      proof (cases r)
        case (Inl e)
        with False f f' rr d1 show ?thesis by (simp add: scrapeSite_unvisited outcome_def)
      next
        case (Inr res)
        show ?thesis
        proof (cases res)
          case None
          with False f f' rr d1 Inr show ?thesis by (simp add: scrapeSite_unvisited outcome_def)
        next
          case (Some data)
          obtain x st2 where v: "storeVideos env (site_id s) data (videos data) st1 = (x, st2)"
            by (cases "storeVideos env (site_id s) data (videos data) st1")
          obtain x' st2' where v': "storeVideos env (site_id s) data (videos data) st1' = (x', st2')"
            by (cases "storeVideos env (site_id s) data (videos data) st1'")
          from storeVideos_db_only [OF d1, of env "site_id s" data "videos data"] v v'
          have xx: "x' = x" and d2: "db st2' = db st2" by simp_all
          show ?thesis
          proof (cases x)
            case None
            from 1 [OF False f [symmetric] Inr Some v [symmetric] None, THEN spec, of st2'] d2
            have "outcome (scrapeLinks env (site_id s) (subLinks data) (insert (site_url s) visited, st2')) =
                  outcome (scrapeLinks env (site_id s) (subLinks data) (insert (site_url s) visited, st2))"
              by simp
            with False f f' rr Inr Some v v' xx None show ?thesis by (simp add: scrapeSite_unvisited)
          next
            case (Some e)
            with False f f' rr Inr \<open>res = Some data\<close> v v' xx d2 show ?thesis
              by (simp add: scrapeSite_unvisited outcome_def)
          qed
        qed
      qed
    qed
  qed
next
  case (2 env catalogId w)
  show ?case by (simp add: outcome_def)
next
  case (3 env catalogId subLink rest w)
  show ?case
  proof (intro allI impI)
    fix st' :: state
    assume d: "db st' = db (snd w)"
    obtain x w1 where r: "scrapeSite env \<lparr>site_url = subLink, site_id = catalogId\<rparr> w = (x, w1)"
      by (cases "scrapeSite env \<lparr>site_url = subLink, site_id = catalogId\<rparr> w")
    obtain x' w1' where r': "scrapeSite env \<lparr>site_url = subLink, site_id = catalogId\<rparr> (fst w, st') = (x', w1')"
      by (cases "scrapeSite env \<lparr>site_url = subLink, site_id = catalogId\<rparr> (fst w, st')")
    from 3(1) [THEN spec, of st'] d r r' have o: "x' = x" "fst w1' = fst w1" "db (snd w1') = db (snd w1)"
      by (simp_all add: outcome_eq)
    show "outcome (scrapeLinks env catalogId (subLink # rest) (fst w, st')) =
          outcome (scrapeLinks env catalogId (subLink # rest) w)"
    proof (cases x)
      case None
      from 3(2) [OF r [symmetric] None, THEN spec, of "snd w1'"] o(3)
      have "outcome (scrapeLinks env catalogId rest (fst w1, snd w1')) =
            outcome (scrapeLinks env catalogId rest w1)" by simp
      moreover have "w1' = (fst w1, snd w1')" using o(2) by (cases w1') simp
      ultimately show ?thesis using r r' o(1) None by simp
    next
      case (Some e)
      with r r' o show ?thesis by (simp add: outcome_def)
    qed
  qed
qed

lemma scrapeSite_db_only:
  assumes "db st' = db st"
  shows "fst (scrapeSite env s (V, st')) = fst (scrapeSite env s (V, st))"
    and "db (snd (snd (scrapeSite env s (V, st')))) = db (snd (snd (scrapeSite env s (V, st))))"
  using walk_db_only(1) [of "(V, st)" env s, THEN spec, of st'] assms
  by (simp_all add: outcome_def)

lemma scrapeAll_db_only:
  "db st' = db st \<Longrightarrow>
   fst (scrapeAll env sites st') = fst (scrapeAll env sites st) \<and>
   db (snd (scrapeAll env sites st')) = db (snd (scrapeAll env sites st))"
proof (induction sites arbitrary: st st')
  case Nil
  then show ?case by simp
next
  case (Cons s rest)
  obtain x w where r: "scrapeSite env s ({}, st) = (x, w)" by (cases "scrapeSite env s ({}, st)")
  obtain x' w' where r': "scrapeSite env s ({}, st') = (x', w')" by (cases "scrapeSite env s ({}, st')")
  from scrapeSite_db_only [OF Cons.prems, of env s "{}"] r r'
  have o: "x' = x" "db (snd w') = db (snd w)" by simp_all
  show ?case
  proof (cases x)
    case None
    from Cons.IH [OF o(2)] r r' o(1) None show ?thesis by simp
  next
    case (Some e)
    with r r' o show ?thesis by simp
  qed
qed


text \<open>
  The loop over the sites adds page events only. When it ends without an exception it
  has navigated to the seed of every site and released every rendering context.
\<close>

lemma scrapeSite_seed_visited: "site_url s \<in> fst (snd (scrapeSite env s ({}, st)))"
proof -
  obtain r st1 where f: "fetchPageData env (site_url s) st = (r, st1)"
    by (cases "fetchPageData env (site_url s) st")
  have n: "site_url s \<notin> {}" by simp
  show ?thesis
  proof (cases r)
    case (Inl e)
    from scrapeSite_raise [OF n f [unfolded Inl]] show ?thesis by simp
  next
    case (Inr res)
    show ?thesis
    proof (cases res)
      case None
      from scrapeSite_null [OF n f [unfolded Inr None]] show ?thesis by simp
    next
      case (Some data)
      obtain y st2 where v: "storeVideos env (site_id s) data (videos data) st1 = (y, st2)"
        by (cases "storeVideos env (site_id s) data (videos data) st1")
      note e = scrapeSite_data [OF n f [unfolded Inr Some]]
      show ?thesis
      proof (cases y)
        case None
        from walk_invariant(2) [of "(insert (site_url s) {}, st2)" env "site_id s" "subLinks data"]
        have "insert (site_url s) {} \<subseteq>
              fst (snd (scrapeLinks env (site_id s) (subLinks data) (insert (site_url s) {}, st2)))"
          by (auto simp: walk_ok_def)
        with e v None show ?thesis by simp
      next
        case (Some e')
        with e v show ?thesis by simp
      qed
    qed
  qed
qed

lemma scrapeAll_trace:
  "\<exists>ev. trace (snd (scrapeAll env sites st)) = trace st @ ev \<and> list_all page_event ev \<and>
     sitesToScrape (snd (scrapeAll env sites st)) = sitesToScrape st \<and>
     (fst (scrapeAll env sites st) = None \<longrightarrow>
        closed ev = opened ev \<and> set (map site_url sites) \<subseteq> set (fetched ev))"
proof (induction sites arbitrary: st)
  case Nil
  show ?case by (simp add: opened_def closed_def)
next
  case (Cons s rest)
  obtain x w where r: "scrapeSite env s ({}, st) = (x, w)" by (cases "scrapeSite env s ({}, st)")
  from walk_invariant(1) [of "({}, st)" env s] r
  obtain ev1 where 1: "trace (snd w) = trace st @ ev1" "list_all page_event ev1"
    "x = None \<longrightarrow> fst w = set (fetched ev1) \<and> closed ev1 = opened ev1"
    "sitesToScrape (snd w) = sitesToScrape st"
    by (auto simp: walk_ok_def)
  from scrapeSite_seed_visited [of s env st] r have seed: "site_url s \<in> fst w" by simp
  show ?case
  proof (cases x)
    case None
    from Cons.IH [of "snd w"]
    obtain ev2 where 2: "trace (snd (scrapeAll env rest (snd w))) = trace (snd w) @ ev2"
      "list_all page_event ev2"
      "sitesToScrape (snd (scrapeAll env rest (snd w))) = sitesToScrape (snd w)"
      "fst (scrapeAll env rest (snd w)) = None \<longrightarrow>
         closed ev2 = opened ev2 \<and> set (map site_url rest) \<subseteq> set (fetched ev2)"
      by (elim exE conjE)
    have e: "scrapeAll env (s # rest) st = scrapeAll env rest (snd w)" using r None by simp
    from 1(3) None have 3: "fst w = set (fetched ev1)" "closed ev1 = opened ev1" by simp_all
    show ?thesis unfolding e
    proof (intro exI [of _ "ev1 @ ev2"] conjI impI)
      show "trace (snd (scrapeAll env rest (snd w))) = trace st @ ev1 @ ev2"
        using 1(1) 2(1) by simp
      show "list_all page_event (ev1 @ ev2)" using 1(2) 2(2) by simp
      show "sitesToScrape (snd (scrapeAll env rest (snd w))) = sitesToScrape st"
        using 1(4) 2(3) by simp
    next
      assume "fst (scrapeAll env rest (snd w)) = None"
      with 2(4) 3(2) show "closed (ev1 @ ev2) = opened (ev1 @ ev2)"
        by (simp add: opened_append closed_append)
    next
      assume "fst (scrapeAll env rest (snd w)) = None"
      with 2(4) have "set (map site_url rest) \<subseteq> set (fetched ev2)" by simp
      with seed 3(1) show "set (map site_url (s # rest)) \<subseteq> set (fetched (ev1 @ ev2))"
        by (auto simp: fetched_append)
    qed
  next
    case (Some e)
    with r have e: "scrapeAll env (s # rest) st = (Some e, snd w)" by simp
    show ?thesis unfolding e by (rule exI [of _ ev1]) (use 1 in simp)
  qed
qed

text \<open>The equations by which a crawl is evaluated on an example environment.\<close>

lemmas eval_simps =
  scrapeSite_visited scrapeSite_unvisited fetch_defs render_def
  extraction_def getContent_def isVideoLink_def endsWith_def startsWith_def lowerASCII_def
  since_def fetched_def env_of_def page_with_def st0_def js_def

section \<open>The walk terminates and fetches no URL twice\<close>

text \<open>
  C2. The table of pages is finite. For every such table, cyclic or not, every seed and
  every visited set to start from, the recursion of the walk is well founded (the call
  is in the accessible part of the call relation), and the URLs the walk navigates to
  are pairwise distinct and were not visited before.
\<close>

theorem walk_terminates_each_url_once:
  "scrapeSite_scrapeLinks_dom (Inl (env, s, (visited, st))) \<and>
   distinct (fetched (since st (snd (snd (scrapeSite env s (visited, st)))))) \<and>
   set (fetched (since st (snd (snd (scrapeSite env s (visited, st)))))) \<inter> visited = {}"
proof -
  from walk_invariant(1) [of "(visited, st)" env s]
  obtain ev where "trace (snd (snd (scrapeSite env s (visited, st)))) = trace st @ ev"
    "distinct (fetched ev)" "set (fetched ev) \<inter> visited = {}"
    by (auto simp: walk_ok_def)
  then have "distinct (fetched (since st (snd (snd (scrapeSite env s (visited, st))))))"
    "set (fetched (since st (snd (snd (scrapeSite env s (visited, st)))))) \<inter> visited = {}"
    by (simp_all add: since_def)
  moreover have "scrapeSite_scrapeLinks_dom (Inl (env, s, (visited, st)))"
    using scrapeSite_total by simp
  ultimately show ?thesis by simp
qed

theorem walk_terminates_each_url_once_witness:
  "scrapeSite_scrapeLinks_dom
     (Inl (cyclic_env, \<lparr>site_url = js ''http://a.io/'', site_id = js ''catalog-a-io''\<rparr>, ({}, st0))) \<and>
   fetched (since st0 (snd (snd (scrapeSite cyclic_env
     \<lparr>site_url = js ''http://a.io/'', site_id = js ''catalog-a-io''\<rparr> ({}, st0))))) =
     [js ''http://a.io/'', js ''http://a.io/b'']"
proof -
  have "fetched (since st0 (snd (snd (scrapeSite cyclic_env
     \<lparr>site_url = js ''http://a.io/'', site_id = js ''catalog-a-io''\<rparr> ({}, st0))))) =
     [js ''http://a.io/'', js ''http://a.io/b'']"
    by (simp add: cyclic_env_def eval_simps)
  with walk_terminates_each_url_once [of cyclic_env
      "\<lparr>site_url = js ''http://a.io/'', site_id = js ''catalog-a-io''\<rparr>" "{}" st0]
  show ?thesis by simp
qed

section \<open>One page fetch: the rendering context and the failure signal\<close>

text \<open>
  C7 fails on the code. The \<^verbatim>\<open>try\<close> block and the \<^verbatim>\<open>catch\<close> block both end with
  \<^verbatim>\<open>page.close\<close>, so a fetch that returns has released its rendering context once
  (\<open>fetchPageData_returns\<close>). But the page is opened and \<^verbatim>\<open>setUserAgent\<close> is awaited
  before the \<^verbatim>\<open>try\<close>, and the \<^verbatim>\<open>page.close\<close> of the \<^verbatim>\<open>catch\<close> is not guarded:

  \<^item> when \<^verbatim>\<open>setUserAgent\<close> is rejected, the fetch raises with the context opened and
    never released;

  \<^item> when the navigation fails and the \<^verbatim>\<open>page.close\<close> of the \<^verbatim>\<open>catch\<close> is rejected,
    the fetch raises and the context is not released;

  \<^item> when the \<^verbatim>\<open>page.close\<close> of the \<^verbatim>\<open>try\<close> is rejected, the \<^verbatim>\<open>catch\<close> closes the
    same page a second time, and the data of the page is lost.
\<close>

theorem rendering_context_leaks_on_rejected_page_call:
  "fst (fetchPageData agent_rejected_env (js ''http://x.io/'') st0) =
     Inl (BrowserError (js ''Target closed'')) \<and>
   trace (snd (fetchPageData agent_rejected_env (js ''http://x.io/'') st0)) = [NewPage 0] \<and>
   opened (trace (snd (fetchPageData agent_rejected_env (js ''http://x.io/'') st0))) = [0] \<and>
   closed (trace (snd (fetchPageData agent_rejected_env (js ''http://x.io/'') st0))) = [] \<and>
   fst (fetchPageData close_rejected_env (js ''http://x.io/'') st0) =
     Inl (BrowserError (js ''Target closed'')) \<and>
   opened (trace (snd (fetchPageData close_rejected_env (js ''http://x.io/'') st0))) = [0] \<and>
   closed (trace (snd (fetchPageData close_rejected_env (js ''http://x.io/'') st0))) = [] \<and>
   fst (fetchPageData first_close_rejected_env (js ''http://a.io/'') st0) = Inr None \<and>
   trace (snd (fetchPageData first_close_rejected_env (js ''http://a.io/'') st0)) =
     [NewPage 0, SetUserAgent 0 (userAgents ! 0), Goto 0 (js ''http://a.io/''), Evaluate 0,
      PageCloseRejected 0, ConsoleError (js ''http://a.io/'') (js ''Target closed''),
      PageClose 0]"
  by (simp add: agent_rejected_env_def close_rejected_env_def first_close_rejected_env_def
      fetch_defs render_def opened_def closed_def env_of_def st0_def userAgents_def js_def)

text \<open>
  C6 (as amended). The navigation and the in-page evaluation stand inside the
  \<^verbatim>\<open>try\<close> block. When the calls that open, prepare and close the page are not
  rejected, the fetch of a URL returns the extracted page data, or, on a navigation or
  evaluation error, it writes the URL and the message of the error to the error log and
  returns \<^verbatim>\<open>null\<close>; it raises nothing and does not touch the store. The walker takes
  \<^verbatim>\<open>null\<close> as no data and goes on: the loop over the links continues with the next
  link, the failed URL marked visited.
\<close>

theorem fetch_returns_data_or_null:
  assumes "page_calls_succeed env url"
  shows "(case render env url of
            Rendered d \<Rightarrow> fst (fetchPageData env url st) = Inr (Some (extraction d))
          | NavigationError err \<Rightarrow>
              fst (fetchPageData env url st) = Inr None \<and>
              ConsoleError url err \<in> set (since st (snd (fetchPageData env url st)))
          | EvaluationError err \<Rightarrow>
              fst (fetchPageData env url st) = Inr None \<and>
              ConsoleError url err \<in> set (since st (snd (fetchPageData env url st)))) \<and>
         db (snd (fetchPageData env url st)) = db st \<and>
         (fst (fetchPageData env url st) = Inr None \<and> url \<notin> visited \<longrightarrow>
            scrapeLinks env c (url # rest) (visited, st) =
            scrapeLinks env c rest (insert url visited, snd (fetchPageData env url st)))"
proof -
  from assms have ok: "newPage_rejects env url = None" "setUserAgent_rejects env url = None"
    "\<And>k. close_rejects env url k = None"
    by (simp_all add: page_calls_succeed_def)
  have 1: "case render env url of
      Rendered d \<Rightarrow> fst (fetchPageData env url st) = Inr (Some (extraction d))
    | NavigationError err \<Rightarrow>
        fst (fetchPageData env url st) = Inr None \<and>
        ConsoleError url err \<in> set (since st (snd (fetchPageData env url st)))
    | EvaluationError err \<Rightarrow>
        fst (fetchPageData env url st) = Inr None \<and>
        ConsoleError url err \<in> set (since st (snd (fetchPageData env url st)))"
    by (cases "render env url") (simp_all add: fetch_defs ok since_def)
  have 2: "scrapeLinks env c (url # rest) (visited, st) =
      scrapeLinks env c rest (insert url visited, snd (fetchPageData env url st))"
    if n: "fst (fetchPageData env url st) = Inr None" and u: "url \<notin> visited"
  proof -
    obtain st1 where f: "fetchPageData env url st = (Inr None, st1)"
      using n by (cases "fetchPageData env url st") auto
    have "site_url \<lparr>site_url = url, site_id = c\<rparr> \<notin> visited" using u by simp
    from scrapeSite_null [OF this, of env st st1] f show ?thesis by simp
  qed
  from 1 2 fetchPageData_db [of env url st] show ?thesis by blast
qed

theorem fetch_returns_data_or_null_witness:
  "page_calls_succeed failing_env (js ''http://y.io/'') \<and>
   render failing_env (js ''http://y.io/'') = EvaluationError (js ''script error'') \<and>
   fst (fetchPageData failing_env (js ''http://y.io/'') st0) = Inr None \<and>
   ConsoleError (js ''http://y.io/'') (js ''script error'') \<in>
     set (since st0 (snd (fetchPageData failing_env (js ''http://y.io/'') st0))) \<and>
   scrapeLinks failing_env (js ''catalog-y-io'') [js ''http://y.io/''] ({}, st0) =
     (None, ({js ''http://y.io/''}, snd (fetchPageData failing_env (js ''http://y.io/'') st0)))"
proof -
  have p: "page_calls_succeed failing_env (js ''http://y.io/'')"
    by (simp add: page_calls_succeed_def failing_env_def env_of_def)
  have r: "render failing_env (js ''http://y.io/'') = EvaluationError (js ''script error'')"
    by (simp add: failing_env_def render_def env_of_def js_def)
  from fetch_returns_data_or_null [OF p, of st0 "{}" "js ''catalog-y-io''" "[]"] r p
  show ?thesis by simp
qed

text \<open>
  C6 as stated fails. The failure signal is the bare \<^verbatim>\<open>null\<close>: the fetches of two
  different URLs that fail for two different causes return the same value, so the
  signal carries neither the URL nor the cause. And the boundary is not tight: when the
  navigation fails and the \<^verbatim>\<open>page.close\<close> of the \<^verbatim>\<open>catch\<close> is rejected, the fetch
  raises, and the walk that called it ends with that exception.
\<close>

theorem failure_signal_counterexample:
  "render failing_env (js ''http://x.io/'') = NavigationError (js ''timeout'') \<and>
   render failing_env (js ''http://y.io/'') = EvaluationError (js ''script error'') \<and>
   js ''http://x.io/'' \<noteq> js ''http://y.io/'' \<and> js ''timeout'' \<noteq> js ''script error'' \<and>
   fst (fetchPageData failing_env (js ''http://x.io/'') st0) = Inr None \<and>
   fst (fetchPageData failing_env (js ''http://y.io/'') st0) = Inr None \<and>
   render close_rejected_env (js ''http://x.io/'') = NavigationError (js ''timeout'') \<and>
   fst (fetchPageData close_rejected_env (js ''http://x.io/'') st0) =
     Inl (BrowserError (js ''Target closed'')) \<and>
   fst (scrapeSite close_rejected_env
          \<lparr>site_url = js ''http://x.io/'', site_id = js ''catalog-x-io''\<rparr> ({}, st0)) =
     Some (BrowserError (js ''Target closed''))"
  by (simp add: failing_env_def close_rejected_env_def eval_simps)

section \<open>Which links the walk follows\<close>

text \<open>The links kept for the crawl are the anchors whose URL string begins with the origin string.\<close>

lemma subLinks_prefix:
  "l \<in> set (subLinks (extraction d)) \<Longrightarrow> startsWith l (location_origin d)"
  by (simp add: extraction_def)

text \<open>
  C5 fails on the code. \<^verbatim>\<open>href.startsWith(location.origin)\<close> compares strings, not
  origins: the anchor below has the origin \<open>https://example.com.evil.org\<close>, which is not
  the origin \<open>https://example.com\<close> of the page, and the walk navigates to it.
\<close>

theorem cross_origin_link_followed:
  "url_origin (js ''https://example.com/'') = js ''https://example.com'' \<and>
   url_origin (js ''https://example.com.evil.org/x'') = js ''https://example.com.evil.org'' \<and>
   js ''https://example.com.evil.org'' \<noteq> js ''https://example.com'' \<and>
   fetched (since st0 (snd (snd (scrapeSite lookalike_env
     \<lparr>site_url = js ''https://example.com/'', site_id = js ''catalog-example-com''\<rparr>
     ({}, st0))))) =
     [js ''https://example.com/'', js ''https://example.com.evil.org/x'']"
  by (simp add: lookalike_env_def url_origin_def eval_simps)

section \<open>Registration\<close>

lemma addSite_missing:
  "addSite env None st = (Inr (BadRequest (js ''Missing URL'')), st)"
  "addSite env (Some []) st = (Inr (BadRequest (js ''Missing URL'')), st)"
  by (simp_all add: addSite_def)

lemma addSite_malformed:
  "url \<noteq> [] \<Longrightarrow> url_hostname env url = None \<Longrightarrow>
   addSite env (Some url) st = (Inl (TypeError (js ''Invalid URL'')), st)"
  by (simp add: addSite_def)

text \<open>
  C9 fails on the code for a malformed URL. A missing or empty URL is answered with
  status 400 and the state is untouched. A malformed URL makes \<^verbatim>\<open>new URL(url)\<close> throw
  inside the handler: no site is added and no refresh runs, but the handler sends no
  response at all.
\<close>

theorem malformed_url_gets_no_response:
  "addSite registry_env None st0 = (Inr (BadRequest (js ''Missing URL'')), st0) \<and>
   addSite registry_env (Some (js ''not a url'')) st0 =
     (Inl (TypeError (js ''Invalid URL'')), st0)"
  by (simp add: addSite_def registry_env_def js_def)

section \<open>The refresh cycle\<close>

lemma storeVideos_accepts:
  "(\<forall>e. store_rejects env e = None) \<Longrightarrow> fst (storeVideos env c data vs st) = None"
  by (induction env c data vs st rule: storeVideos.induct) (simp_all add: Let_def)

lemma fetchPageData_no_exception:
  "page_calls_succeed env url \<Longrightarrow> \<exists>x. fst (fetchPageData env url st) = Inr x"
  by (simp add: page_calls_succeed_def fetch_defs split: rendering.splits)

text \<open>When only navigations and evaluations fail, no exception leaves a walk.\<close>

lemma walk_no_exception:
  "only_pages_fail env \<longrightarrow> fst (scrapeSite env s w) = None"
  "only_pages_fail env \<longrightarrow> fst (scrapeLinks env c links w) = None"
proof (induction env s w and env c links w rule: scrapeSite_scrapeLinks.induct)
  case (1 env s visited st)
  show ?case
  proof
    assume q: "only_pages_fail env"
    then have a: "\<forall>e. store_rejects env e = None" and p: "page_calls_succeed env (site_url s)"
      by (simp_all add: only_pages_fail_def)
    show "fst (scrapeSite env s (visited, st)) = None"
    proof (cases "site_url s \<in> visited")
      case True
      then show ?thesis by (simp add: scrapeSite_visited)
    next
      case False
      from fetchPageData_no_exception [OF p, of st]
      obtain res st1 where f: "fetchPageData env (site_url s) st = (Inr res, st1)"
        by (cases "fetchPageData env (site_url s) st") auto
      show ?thesis
      proof (cases res)
        case None
        from scrapeSite_null [OF False f [unfolded None]] show ?thesis by simp
      next
        case (Some data)
        obtain x st2 where v: "storeVideos env (site_id s) data (videos data) st1 = (x, st2)"
          by (cases "storeVideos env (site_id s) data (videos data) st1")
        from storeVideos_accepts [OF a, of "site_id s" data "videos data" st1] v
        have x: "x = None" by simp
        from 1 [OF False f [symmetric] refl Some v [symmetric] x] q
        have "fst (scrapeLinks env (site_id s) (subLinks data) (insert (site_url s) visited, st2)) = None"
          by simp
        with scrapeSite_data [OF False f [unfolded Some]] v x show ?thesis by simp
      qed
    qed
  qed
next
  case (2 env catalogId w)
  show ?case by simp
next
  case (3 env catalogId subLink rest w)
  show ?case
  proof
    assume q: "only_pages_fail env"
    obtain x w1 where r: "scrapeSite env \<lparr>site_url = subLink, site_id = catalogId\<rparr> w = (x, w1)"
      by (cases "scrapeSite env \<lparr>site_url = subLink, site_id = catalogId\<rparr> w")
    from 3(1) q r have x: "x = None" by simp
    from 3(2) [OF r [symmetric] x] q have "fst (scrapeLinks env catalogId rest w1) = None" by simp
    with r x show "fst (scrapeLinks env catalogId (subLink # rest) w) = None" by simp
  qed
qed

lemma scrapeAll_no_exception:
  "only_pages_fail env \<Longrightarrow> fst (scrapeAll env sites st) = None"
proof (induction sites arbitrary: st)
  case Nil
  show ?case by simp
next
  case (Cons s rest)
  obtain x w where r: "scrapeSite env s ({}, st) = (x, w)" by (cases "scrapeSite env s ({}, st)")
  from walk_no_exception(1) [of env s "({}, st)"] Cons.prems r have "x = None" by simp
  with r Cons.IH [OF Cons.prems, of "snd w"] show ?case by simp
qed

lemma refreshScraping_no_exception:
  assumes "only_pages_fail env"
  shows "fst (refreshScraping env st) = None"
proof -
  from assms have l: "launch_rejects env = None" "browser_close_rejects env = None"
    by (simp_all add: only_pages_fail_def)
  obtain x st1 where r: "scrapeAll env (sitesToScrape st) (emit [BrowserLaunch] st) = (x, st1)"
    by (cases "scrapeAll env (sitesToScrape st) (emit [BrowserLaunch] st)")
  from scrapeAll_no_exception [OF assms, of "sitesToScrape st" "emit [BrowserLaunch] st"] r
  have "x = None" by simp
  with r l show ?thesis by (simp add: refreshScraping_def)
qed

lemma refreshScraping_sites: "sitesToScrape (snd (refreshScraping env st)) = sitesToScrape st"
proof -
  obtain x st1 where r: "scrapeAll env (sitesToScrape st) (emit [BrowserLaunch] st) = (x, st1)"
    by (cases "scrapeAll env (sitesToScrape st) (emit [BrowserLaunch] st)")
  from scrapeAll_trace [of env "sitesToScrape st" "emit [BrowserLaunch] st"] r
  have "sitesToScrape st1 = sitesToScrape st" by (auto simp: emit_def)
  with r show ?thesis
    by (cases x) (simp_all add: refreshScraping_def emit_def split: option.splits)
qed

text \<open>
  A refresh that ends without an exception has launched the browser, navigated to the
  seed of every site, released every rendering context and closed the browser last.
\<close>

lemma refreshScraping_released:
  assumes "fst (refreshScraping env st) = None"
  shows "\<exists>ev. trace (snd (refreshScraping env st)) = trace st @ [BrowserLaunch] @ ev @ [BrowserClose] \<and>
           list_all page_event ev \<and> closed ev = opened ev \<and>
           set (map site_url (sitesToScrape st)) \<subseteq> set (fetched ev)"
proof -
  obtain x st1 where r: "scrapeAll env (sitesToScrape st) (emit [BrowserLaunch] st) = (x, st1)"
    by (cases "scrapeAll env (sitesToScrape st) (emit [BrowserLaunch] st)")
  from assms have l: "launch_rejects env = None"
    by (cases "launch_rejects env") (simp_all add: refreshScraping_def)
  with assms r have x: "x = None" by (cases x) (simp_all add: refreshScraping_def)
  with assms r l have c: "browser_close_rejects env = None"
    by (cases "browser_close_rejects env") (simp_all add: refreshScraping_def)
  from scrapeAll_trace [of env "sitesToScrape st" "emit [BrowserLaunch] st"] r x
  obtain ev where ev: "trace st1 = trace st @ [BrowserLaunch] @ ev" "list_all page_event ev"
    "closed ev = opened ev" "set (map site_url (sitesToScrape st)) \<subseteq> set (fetched ev)"
    by (auto simp: emit_def)
  have "trace (snd (refreshScraping env st)) = trace st @ [BrowserLaunch] @ ev @ [BrowserClose]"
    using r x l c ev(1) by (simp add: refreshScraping_def emit_def)
  with ev(2-4) show ?thesis by blast
qed

lemma refreshScraping_db_only:
  assumes "db st' = db st" "sitesToScrape st' = sitesToScrape st"
  shows "fst (refreshScraping env st') = fst (refreshScraping env st)"
    and "db (snd (refreshScraping env st')) = db (snd (refreshScraping env st))"
proof -
  obtain x st1 where r: "scrapeAll env (sitesToScrape st) (emit [BrowserLaunch] st) = (x, st1)"
    by (cases "scrapeAll env (sitesToScrape st) (emit [BrowserLaunch] st)")
  obtain x' st1' where r': "scrapeAll env (sitesToScrape st) (emit [BrowserLaunch] st') = (x', st1')"
    by (cases "scrapeAll env (sitesToScrape st) (emit [BrowserLaunch] st')")
  have "db (emit [BrowserLaunch] st') = db (emit [BrowserLaunch] st)"
    using assms(1) by (simp add: emit_def)
  from scrapeAll_db_only [OF this, of env "sitesToScrape st"] r r'
  have o: "x' = x" "db st1' = db st1" by simp_all
  show "fst (refreshScraping env st') = fst (refreshScraping env st)"
    using r r' o assms(2) by (cases x) (simp_all add: refreshScraping_def split: option.splits)
  show "db (snd (refreshScraping env st')) = db (snd (refreshScraping env st))"
    using r r' o assms
    by (cases x) (simp_all add: refreshScraping_def emit_def split: option.splits)
qed

text \<open>The global replacement changes every dot into a dash and nothing else.\<close>

lemma replace_dots_map: "replace_dots host = map (\<lambda>c. if c = 0x2E then 0x2D else c) host"
  by (induction host) (simp_all add: js_def)

lemma catalogIdOf_map:
  "catalogIdOf host = js ''catalog-'' @ map (\<lambda>c. if c = 0x2E then 0x2D else c) host"
  by (simp add: catalogIdOf_def replace_dots_map)

text \<open>
  C8. For a URL the parser accepts, the handler derives the catalog id from the host:
  the text \<^verbatim>\<open>catalog-\<close> followed by the host with every dot replaced by a dash and every
  other character kept. It appends the pair of the URL and this id to the site list
  and runs a refresh over the whole list: the answer is that of \<^verbatim>\<open>refreshScraping\<close> on
  the extended list, and when the handler answers with success, the answer carries
  this id and the seed of every registered site, old and new, has been navigated to in
  that refresh.
\<close>

theorem registration_refreshes_whole_list:
  assumes "url \<noteq> []" and "url_hostname env url = Some host"
  shows "addSite env (Some url) st =
           (case refreshScraping env
                   (st\<lparr>sitesToScrape :=
                        sitesToScrape st @
                          [\<lparr>site_url = url,
                            site_id = js ''catalog-'' @
                              map (\<lambda>c. if c = 0x2E then 0x2D else c) host\<rparr>]\<rparr>) of
              (Some e, st2) \<Rightarrow> (Inl e, st2)
            | (None, st2) \<Rightarrow>
                (Inr (Success
                   (js ''catalog-'' @ map (\<lambda>c. if c = 0x2E then 0x2D else c) host)), st2)) \<and>
         sitesToScrape (snd (addSite env (Some url) st)) =
           sitesToScrape st @
             [\<lparr>site_url = url,
               site_id = js ''catalog-'' @ map (\<lambda>c. if c = 0x2E then 0x2D else c) host\<rparr>] \<and>
         ((\<exists>a. fst (addSite env (Some url) st) = Inr a) \<longrightarrow>
            fst (addSite env (Some url) st) =
              Inr (Success (js ''catalog-'' @ map (\<lambda>c. if c = 0x2E then 0x2D else c) host)) \<and>
            set (map site_url (sitesToScrape st)) \<union> {url} \<subseteq>
              set (fetched (since st (snd (addSite env (Some url) st)))))"
proof -
  define cid where "cid = js ''catalog-'' @ map (\<lambda>c. if c = 0x2E then 0x2D else c) host"
  define st1 where
    "st1 = st\<lparr>sitesToScrape := sitesToScrape st @ [\<lparr>site_url = url, site_id = cid\<rparr>]\<rparr>"
  obtain x st2 where r: "refreshScraping env st1 = (x, st2)" by (cases "refreshScraping env st1")
  have a: "addSite env (Some url) st =
      (case refreshScraping env st1 of
         (Some e, st2) \<Rightarrow> (Inl e, st2)
       | (None, st2) \<Rightarrow> (Inr (Success cid), st2))"
    using assms unfolding st1_def cid_def by (simp add: addSite_def Let_def catalogIdOf_map)
  have s: "snd (addSite env (Some url) st) = st2" using a r by (cases x) simp_all
  have b: "sitesToScrape st2 = sitesToScrape st @ [\<lparr>site_url = url, site_id = cid\<rparr>]"
    using refreshScraping_sites [of env st1] r by (simp add: st1_def)
  have c: "fst (addSite env (Some url) st) = Inr (Success cid) \<and>
      set (map site_url (sitesToScrape st)) \<union> {url} \<subseteq> set (fetched (since st st2))"
    if ok: "\<exists>a. fst (addSite env (Some url) st) = Inr a"
  proof -
    from ok a r have x: "x = None" by (cases x) simp_all
    with r have "fst (refreshScraping env st1) = None" by simp
    from refreshScraping_released [OF this] r
    obtain ev where "trace st2 = trace st1 @ [BrowserLaunch] @ ev @ [BrowserClose]"
      "set (map site_url (sitesToScrape st1)) \<subseteq> set (fetched ev)"
      by auto
    moreover have "trace st1 = trace st" by (simp add: st1_def)
    ultimately have "fetched (since st st2) = fetched ev"
      "set (map site_url (sitesToScrape st1)) \<subseteq> set (fetched ev)"
      by (simp_all add: since_def fetched_def)
    then have "set (map site_url (sitesToScrape st)) \<union> {url} \<subseteq> set (fetched (since st st2))"
      by (simp add: st1_def)
    moreover from a r x have "fst (addSite env (Some url) st) = Inr (Success cid)" by simp
    ultimately show ?thesis by simp
  qed
  show ?thesis unfolding s cid_def [symmetric]
  proof (intro conjI impI)
    show "addSite env (Some url) st =
      (case refreshScraping env
              (st\<lparr>sitesToScrape := sitesToScrape st @ [\<lparr>site_url = url, site_id = cid\<rparr>]\<rparr>) of
         (Some e, st2) \<Rightarrow> (Inl e, st2)
       | (None, st2) \<Rightarrow> (Inr (Success cid), st2))"
      using a by (simp only: st1_def)
    show "sitesToScrape st2 = sitesToScrape st @ [\<lparr>site_url = url, site_id = cid\<rparr>]"
      by (rule b)
  next
    assume "\<exists>a. fst (addSite env (Some url) st) = Inr a"
    from c [OF this] show "fst (addSite env (Some url) st) = Inr (Success cid)"
      by (rule conjunct1)
  next
    assume "\<exists>a. fst (addSite env (Some url) st) = Inr a"
    from c [OF this]
    show "set (map site_url (sitesToScrape st)) \<union> {url} \<subseteq> set (fetched (since st st2))"
      by (rule conjunct2)
  qed
qed

theorem registration_refreshes_whole_list_witness:
  "js ''https://example.com'' \<noteq> [] \<and>
   url_hostname registry_env (js ''https://example.com'') = Some (js ''example.com'') \<and>
   fst (addSite registry_env (Some (js ''https://example.com'')) one_site) =
     Inr (Success (js ''catalog-example-com'')) \<and>
   sitesToScrape (snd (addSite registry_env (Some (js ''https://example.com'')) one_site)) =
     [\<lparr>site_url = js ''http://a.io/'', site_id = js ''catalog-a-io''\<rparr>,
      \<lparr>site_url = js ''https://example.com'', site_id = js ''catalog-example-com''\<rparr>] \<and>
   {js ''http://a.io/'', js ''https://example.com''} \<subseteq>
     set (fetched (since one_site
       (snd (addSite registry_env (Some (js ''https://example.com'')) one_site)))) \<and>
   fst (addSite registry_env (Some (js ''https://www.films.example.org/list'')) one_site) =
     Inr (Success (js ''catalog-www-films-example-org''))"
proof -
  have q: "only_pages_fail registry_env"
    by (simp add: only_pages_fail_def page_calls_succeed_def registry_env_def env_of_def)
  have n: "fst (refreshScraping registry_env st) = None" for st
    using q by (rule refreshScraping_no_exception)
  have ok: "\<exists>a. fst (addSite registry_env (Some url) one_site) = Inr a"
    if e: "addSite registry_env (Some url) one_site =
      (case refreshScraping registry_env st1 of
         (Some e, st2) \<Rightarrow> (Inl e, st2)
       | (None, st2) \<Rightarrow> (Inr (Success cid), st2))" for url st1 cid
    unfolding e using n [of st1] by (auto split: prod.splits option.splits)
  have h: "js ''https://example.com'' \<noteq> []"
    "url_hostname registry_env (js ''https://example.com'') = Some (js ''example.com'')"
    by (simp_all add: registry_env_def js_def)
  have c: "js ''catalog-'' @ map (\<lambda>c. if c = 0x2E then 0x2D else c) (js ''example.com'') =
      js ''catalog-example-com''"
    by (simp add: js_def)
  note t = registration_refreshes_whole_list [OF h, of one_site]
  from t [THEN conjunct1] have a: "\<exists>a. fst (addSite registry_env (Some (js ''https://example.com'')) one_site) = Inr a"
    by (rule ok)
  note t2 = t [THEN conjunct2, THEN conjunct1]
  note t3 = t [THEN conjunct2, THEN conjunct2, THEN mp, OF a]
  have sites: "sitesToScrape one_site =
      [\<lparr>site_url = js ''http://a.io/'', site_id = js ''catalog-a-io''\<rparr>]"
    by (simp add: one_site_def st0_def)
  from t3 [THEN conjunct2] have sub: "{js ''http://a.io/'', js ''https://example.com''} \<subseteq>
     set (fetched (since one_site
       (snd (addSite registry_env (Some (js ''https://example.com'')) one_site))))"
    unfolding sites by simp
  have h': "js ''https://www.films.example.org/list'' \<noteq> []"
    "url_hostname registry_env (js ''https://www.films.example.org/list'') =
       Some (js ''www.films.example.org'')"
    by (simp_all add: registry_env_def js_def)
  have c': "js ''catalog-'' @ map (\<lambda>c. if c = 0x2E then 0x2D else c) (js ''www.films.example.org'') =
      js ''catalog-www-films-example-org''"
    by (simp add: js_def)
  note t' = registration_refreshes_whole_list [OF h', of one_site]
  from t' [THEN conjunct1]
  have a': "\<exists>a. fst (addSite registry_env (Some (js ''https://www.films.example.org/list'')) one_site) = Inr a"
    by (rule ok)
  note t3' = t' [THEN conjunct2, THEN conjunct2, THEN mp, OF a', THEN conjunct1]
  show ?thesis
    using h t3 [THEN conjunct1, unfolded c] t2 [unfolded sites c] sub t3' [unfolded c'] by simp
qed

section \<open>Failures inside a refresh cycle\<close>



text \<open>What a refresh returns and leaves in the store, in terms of its loop.\<close>

lemma refreshScraping_unfold:
  "fst (refreshScraping env st) =
     (case launch_rejects env of
        Some err \<Rightarrow> Some (BrowserError err)
      | None \<Rightarrow>
          (case fst (scrapeAll env (sitesToScrape st) (emit [BrowserLaunch] st)) of
             Some e \<Rightarrow> Some e
           | None \<Rightarrow> map_option BrowserError (browser_close_rejects env)))"
  "db (snd (refreshScraping env st)) =
     (case launch_rejects env of
        Some err \<Rightarrow> db st
      | None \<Rightarrow> db (snd (scrapeAll env (sitesToScrape st) (emit [BrowserLaunch] st))))"
proof -
  obtain x st1 where r: "scrapeAll env (sitesToScrape st) (emit [BrowserLaunch] st) = (x, st1)"
    by (cases "scrapeAll env (sitesToScrape st) (emit [BrowserLaunch] st)")
  show "fst (refreshScraping env st) =
     (case launch_rejects env of
        Some err \<Rightarrow> Some (BrowserError err)
      | None \<Rightarrow>
          (case fst (scrapeAll env (sitesToScrape st) (emit [BrowserLaunch] st)) of
             Some e \<Rightarrow> Some e
           | None \<Rightarrow> map_option BrowserError (browser_close_rejects env)))"
    using r by (cases x) (simp_all add: refreshScraping_def split: option.splits)
  show "db (snd (refreshScraping env st)) =
     (case launch_rejects env of
        Some err \<Rightarrow> db st
      | None \<Rightarrow> db (snd (scrapeAll env (sitesToScrape st) (emit [BrowserLaunch] st))))"
    using r by (cases x) (simp_all add: refreshScraping_def emit_def split: option.splits)
qed





section \<open>The keys of the store stay unique through a crawl\<close>

text \<open>
  The crawl writes to the store through \<^verbatim>\<open>updateOne\<close> with \<^verbatim>\<open>upsert\<close> only, so a
  store with one entry per key, such as the empty one, keeps one entry per key through
  every walk and every refresh cycle.
\<close>

lemma storeVideos_keys_unique:
  "distinct (map entry_key (db st)) \<Longrightarrow>
   distinct (map entry_key (db (snd (storeVideos env c data vs st))))"
proof (induction env c data vs st rule: storeVideos.induct)
  case (1 env catalogId data st)
  then show ?case by simp
next
  case (2 env catalogId data videoUrl rest st)
  show ?case
  proof (cases "store_rejects env (entryOf catalogId data videoUrl)")
    case (Some err)
    with "2.prems" show ?thesis by (simp add: Let_def)
  next
    case None
    have "distinct (map entry_key
        (updateOne (entryId videoUrl) catalogId (entryOf catalogId data videoUrl) (db st)))"
      using entryOf_key "2.prems" by (rule updateOne_distinct)
    with "2.IH" [OF refl None] None show ?thesis by (simp add: Let_def)
  qed
qed

lemma walk_keys_unique:
  "distinct (map entry_key (db (snd w))) \<longrightarrow>
     distinct (map entry_key (db (snd (snd (scrapeSite env s w)))))"
  "distinct (map entry_key (db (snd w))) \<longrightarrow>
     distinct (map entry_key (db (snd (snd (scrapeLinks env c links w)))))"
proof (induction env s w and env c links w rule: scrapeSite_scrapeLinks.induct)
  case (1 env s visited st)
  show ?case
  proof
    assume a: "distinct (map entry_key (db (snd (visited, st))))"
    show "distinct (map entry_key (db (snd (snd (scrapeSite env s (visited, st))))))"
    proof (cases "site_url s \<in> visited")
      case True
      with a show ?thesis by (simp add: scrapeSite_visited)
    next
      case False
      obtain r st1 where f: "fetchPageData env (site_url s) st = (r, st1)"
        by (cases "fetchPageData env (site_url s) st")
      with fetchPageData_db [of env "site_url s" st] a
      have a1: "distinct (map entry_key (db st1))" by simp
      show ?thesis
      proof (cases r)
        case (Inl e)
        from scrapeSite_raise [OF False f [unfolded Inl]] a1 show ?thesis by simp
      next
        case (Inr res)
        show ?thesis
        proof (cases res)
          case None
          from scrapeSite_null [OF False f [unfolded Inr None]] a1 show ?thesis by simp
        next
          case (Some data)
          obtain x st2 where v: "storeVideos env (site_id s) data (videos data) st1 = (x, st2)"
            by (cases "storeVideos env (site_id s) data (videos data) st1")
          from storeVideos_keys_unique [OF a1, of env "site_id s" data "videos data"] v
          have a2: "distinct (map entry_key (db st2))" by simp
          note e = scrapeSite_data [OF False f [unfolded Inr Some]]
          show ?thesis
          proof (cases x)
            case None
            from 1 [OF False f [symmetric] Inr Some v [symmetric] None] a2
            have "distinct (map entry_key (db (snd (snd
              (scrapeLinks env (site_id s) (subLinks data) (insert (site_url s) visited, st2))))))"
              by simp
            with e v None show ?thesis by simp
          next
            case (Some e')
            with e v a2 show ?thesis by simp
          qed
        qed
      qed
    qed
  qed
next
  case (2 env catalogId w)
  show ?case by simp
next
  case (3 env catalogId subLink rest w)
  show ?case
  proof
    assume a: "distinct (map entry_key (db (snd w)))"
    obtain x w1 where r: "scrapeSite env \<lparr>site_url = subLink, site_id = catalogId\<rparr> w = (x, w1)"
      by (cases "scrapeSite env \<lparr>site_url = subLink, site_id = catalogId\<rparr> w")
    from 3(1) a r have a1: "distinct (map entry_key (db (snd w1)))" by simp
    show "distinct (map entry_key (db (snd (snd (scrapeLinks env catalogId (subLink # rest) w)))))"
    proof (cases x)
      case None
      from 3(2) [OF r [symmetric] None] a1 r None show ?thesis by simp
    next
      case (Some e)
      with r a1 show ?thesis by simp
    qed
  qed
qed

lemma scrapeAll_keys_unique:
  "distinct (map entry_key (db st)) \<Longrightarrow>
   distinct (map entry_key (db (snd (scrapeAll env sites st))))"
proof (induction sites arbitrary: st)
  case Nil
  then show ?case by simp
next
  case (Cons s rest)
  obtain x w where r: "scrapeSite env s ({}, st) = (x, w)" by (cases "scrapeSite env s ({}, st)")
  from walk_keys_unique(1) [of "({}, st)" env s] Cons.prems r
  have a: "distinct (map entry_key (db (snd w)))" by simp
  show ?case
  proof (cases x)
    case None
    with r Cons.IH [OF a] show ?thesis by simp
  next
    case (Some e)
    with r a show ?thesis by simp
  qed
qed

lemma refreshScraping_keys_unique:
  assumes "distinct (map entry_key (db st))"
  shows "distinct (map entry_key (db (snd (refreshScraping env st))))"
proof -
  from assms have "distinct (map entry_key (db (emit [BrowserLaunch] st)))"
    by (simp add: emit_def)
  then have "distinct (map entry_key
      (db (snd (scrapeAll env (sitesToScrape st) (emit [BrowserLaunch] st)))))"
    by (rule scrapeAll_keys_unique)
  with assms show ?thesis by (simp add: refreshScraping_unfold(2) split: option.splits)
qed

end
